theory Spec2Isabelle
  imports Complex_Main "HOL-Library.Multiset" "HOL-Library.Option_ord"
begin

section \<open>Data model\<close>

text \<open>
  The recommendation platform stores its questionnaire, the respondent's answers, the
  decision matrix and the catalogue of use cases in a relational store; the code under
  study reads rows from it and works on plain JavaScript values. Identifiers are UUID
  strings and an answer is the JSON value \<^verbatim>\<open>string | string[]\<close>. A
  \<^verbatim>\<open>Record<string, T>\<close> that the code fills key by key is an association list in
  insertion order. The score table is keyed by the UUID column \<^verbatim>\<open>use_case_id\<close>;
  a UUID is neither a canonical array index nor the name of a property of
  \<^verbatim>\<open>Object.prototype\<close>, so \<^verbatim>\<open>Object.entries\<close> enumerates the score table in
  insertion order. The groups of the roadmap are keyed by free text, and there both
  matter: see \<open>push_group\<close> and \<open>Object_entries\<close>.
\<close>

datatype answer_value = Scalar string | Multi "string list"

text \<open>A row of \<^verbatim>\<open>responses\<close>, as selected by the scoring code.\<close>

record response =
  question_id :: string
  answer :: answer_value

text \<open>A row of \<^verbatim>\<open>decision_matrix\<close> (the column \<^verbatim>\<open>weight\<close> is \<^verbatim>\<open>INT NOT NULL\<close>).\<close>

record decision_matrix =
  question_id :: string
  triggering_answer :: string
  use_case_id :: string
  weight :: int

text \<open>
  A row of \<^verbatim>\<open>use_cases\<close>; the free-text columns (what is included, deliverables,
  rationale, delivery) play no part in scoring or grouping and are left out.
\<close>

record use_case =
  uc_id :: string
  title :: string
  category :: string
  sub_category :: string
  engagement_category :: "string option"
  use_case_number :: "int option"

text \<open>The interface \<^verbatim>\<open>UseCase\<close> of the results page: a row together with its score.\<close>

record UseCase = use_case +
  score :: int

section \<open>Sorting as JavaScript does\<close>

text \<open>
  \<^verbatim>\<open>Array.prototype.sort(compareFn)\<close> is a stable sort. The first argument of
  \<open>js_sort\<close> is the test \<^verbatim>\<open>compareFn(a, b) <= 0\<close>, that is, "\<open>a\<close> may stay in
  front of \<open>b\<close>"; an element is inserted in front of the first element it may stay in
  front of, so elements that compare equal keep their order.
\<close>

fun insort_by :: "('a \<Rightarrow> 'a \<Rightarrow> bool) \<Rightarrow> 'a \<Rightarrow> 'a list \<Rightarrow> 'a list" where
  "insort_by le x [] = [x]"
| "insort_by le x (y # ys) = (if le x y then x # y # ys else y # insort_by le x ys)"

definition js_sort :: "('a \<Rightarrow> 'a \<Rightarrow> bool) \<Rightarrow> 'a list \<Rightarrow> 'a list" where
  "js_sort le xs = foldr (insort_by le) xs []"

section \<open>The scoring engine\<close>

text \<open>
  \<^verbatim>\<open>
  const answersToCheck: string[] = Array.isArray(answerValue) ? answerValue : [answerValue]
  \<close>
\<close>

definition answersToCheck :: "answer_value \<Rightarrow> string list" where
  "answersToCheck answerValue =
     (case answerValue of Multi values \<Rightarrow> values | Scalar v \<Rightarrow> [v])"

text \<open>
  The query
  \<^verbatim>\<open>from('decision_matrix').eq('question_id', q).eq('triggering_answer', a)\<close>
  returns the rows of the table that match both columns.
\<close>

definition matches :: "decision_matrix list \<Rightarrow> string \<Rightarrow> string \<Rightarrow> decision_matrix list" where
  "matches table q a =
     filter (\<lambda>m. decision_matrix.question_id m = q \<and> triggering_answer m = a) table"

text \<open>
  \<^verbatim>\<open>useCaseScores[id] = (useCaseScores[id] || 0) + weight\<close>: an existing key keeps
  its place, a new key goes to the end.
\<close>

fun add_score :: "(string \<times> int) list \<Rightarrow> string \<Rightarrow> int \<Rightarrow> (string \<times> int) list" where
  "add_score [] k w = [(k, 0 + w)]"
| "add_score ((k', s) # scores) k w =
     (if k' = k then (k', (if s = 0 then 0 else s) + w) # scores
      else (k', s) # add_score scores k w)"

text \<open>
  The three nested loops over the responses, the values of each answer and the matching
  rows. The weight that a row contributes is a parameter: the weighted engine and the
  earlier, unweighted one differ only there.
\<close>

definition accumulate ::
  "(decision_matrix \<Rightarrow> int) \<Rightarrow> decision_matrix list \<Rightarrow> response list \<Rightarrow> (string \<times> int) list" where
  "accumulate wt table responses =
     fold (\<lambda>r scores.
        fold (\<lambda>a scores.
           fold (\<lambda>m scores. add_score scores (use_case_id m) (wt m))
             (matches table (response.question_id r) a) scores)
          (answersToCheck (answer r)) scores)
       responses []"

text \<open>\<^verbatim>\<open>const weight = match.weight || 1\<close>\<close>

definition weight_or_1 :: "decision_matrix \<Rightarrow> int" where
  "weight_or_1 m = (if weight m = 0 then 1 else weight m)"

definition useCaseScores :: "decision_matrix list \<Rightarrow> response list \<Rightarrow> (string \<times> int) list" where
  "useCaseScores = accumulate weight_or_1"

definition MIN_SCORE :: int where
  "MIN_SCORE = 3"

text \<open>
  \<^verbatim>\<open>
  Object.entries(useCaseScores).filter(([, score]) => score >= minScore)
                               .sort(([, a], [, b]) => b - a)
  \<close>
\<close>

definition cutoff_and_sort :: "int \<Rightarrow> (string \<times> int) list \<Rightarrow> (string \<times> int) list" where
  "cutoff_and_sort minScore scores =
     js_sort (\<lambda>(_, a) (_, b). b - a \<le> 0) (filter (\<lambda>(_, score). score \<ge> minScore) scores)"

definition sortedEntries :: "decision_matrix list \<Rightarrow> response list \<Rightarrow> (string \<times> int) list" where
  "sortedEntries table responses = cutoff_and_sort MIN_SCORE (useCaseScores table responses)"

definition sortedIds :: "decision_matrix list \<Rightarrow> response list \<Rightarrow> string list" where
  "sortedIds table responses = map fst (sortedEntries table responses)"

text \<open>
  The earlier engine (the fallback of the first results page): every matching row counts
  1 and nothing is cut off, so any match qualifies.
\<close>

definition legacyScores :: "decision_matrix list \<Rightarrow> response list \<Rightarrow> (string \<times> int) list" where
  "legacyScores = accumulate (\<lambda>_. 1)"

definition legacySortedEntries :: "decision_matrix list \<Rightarrow> response list \<Rightarrow> (string \<times> int) list" where
  "legacySortedEntries table responses =
     js_sort (\<lambda>(_, a) (_, b). b - a \<le> 0) (legacyScores table responses)"

text \<open>
  The join with the catalogue:
  \<^verbatim>\<open>
  sortedIds.map((id) => { const uc = matchedUseCases.find((u) => u.id === id)
                          if (!uc) return undefined
                          return { ...uc, score: scoreMap[id] || 0 } })
           .filter((uc) => uc !== undefined)
  \<close>
  where \<^verbatim>\<open>matchedUseCases\<close> are the rows of \<^verbatim>\<open>use_cases\<close> whose id is among
  \<^verbatim>\<open>sortedIds\<close> and \<^verbatim>\<open>scoreMap = Object.fromEntries(sortedEntries)\<close>.
\<close>

definition scoreMap_or_0 :: "(string \<times> int) list \<Rightarrow> string \<Rightarrow> int" where
  "scoreMap_or_0 entries k = (case map_of (rev entries) k of None \<Rightarrow> 0 | Some s \<Rightarrow> s)"

definition ordered :: "use_case list \<Rightarrow> (string \<times> int) list \<Rightarrow> UseCase list" where
  "ordered use_cases entries =
     (let ids = map fst entries;
          matchedUseCases = filter (\<lambda>u. uc_id u \<in> set ids) use_cases
      in List.map_filter
           (\<lambda>k. case find (\<lambda>u. uc_id u = k) matchedUseCases of
                   None \<Rightarrow> None
                 | Some uc \<Rightarrow> Some (use_case.extend uc (UseCase.fields (scoreMap_or_0 entries k))))
           ids)"

text \<open>What \<^verbatim>\<open>clientSideProcessing\<close> stores in the state \<^verbatim>\<open>allUseCases\<close>.\<close>

definition clientSideProcessing ::
  "use_case list \<Rightarrow> decision_matrix list \<Rightarrow> response list \<Rightarrow> UseCase list" where
  "clientSideProcessing use_cases table responses =
     ordered use_cases (sortedEntries table responses)"

section \<open>Relevance percentages\<close>

text \<open>
  JavaScript numbers are IEEE 754 binary64 values. Scores are integers far below
  \<open>2\<^sup>5\<^sup>3\<close> and therefore exact, but the quotient \<^verbatim>\<open>score / maxScore\<close> and its
  product with 100 are each rounded to the nearest binary64 value, ties to the even
  significand. \<open>fl\<close> is that rounding on the rationals, for magnitudes in the normal
  range (no overflow, no subnormals: the quotients here lie between \<open>2\<^sup>-\<^sup>6\<^sup>3\<close> and
  \<open>2\<^sup>6\<^sup>3\<close>): the argument is scaled by powers of two into
  \<open>[2\<^sup>5\<^sup>2, 2\<^sup>5\<^sup>3)\<close>, rounded to an integer there, and scaled back.
\<close>

definition round_half_even :: "rat \<Rightarrow> int" where
  "round_half_even x =
     (let n = \<lfloor>x\<rfloor>; d = x - of_int n
      in if d < 1 / 2 then n else if 1 / 2 < d then n + 1 else if even n then n else n + 1)"

function fl_pos :: "rat \<Rightarrow> rat" where
  "fl_pos x =
     (if x \<le> 0 then 0
      else if 2 ^ 53 \<le> x then 2 * fl_pos (x / 2)
      else if x < 2 ^ 52 then fl_pos (2 * x) / 2
      else of_int (round_half_even x))"
  by pat_completeness auto
termination
proof (relation "measure (\<lambda>x. if x \<le> 0 then 0
                               else if 2 ^ 53 \<le> x then nat \<lfloor>x\<rfloor>
                               else if x < 2 ^ 52 then nat \<lfloor>2 ^ 53 / x\<rfloor> else 0)")
  show "wf (measure (\<lambda>x::rat. if x \<le> 0 then 0
                               else if 2 ^ 53 \<le> x then nat \<lfloor>x\<rfloor>
                               else if x < 2 ^ 52 then nat \<lfloor>2 ^ 53 / x\<rfloor> else 0))"
    by simp
next
  fix x :: rat
  assume x: "\<not> x \<le> 0" "2 ^ 53 \<le> x"
  have "x / 2 \<le> x - 1"
    using x by simp
  then have "\<lfloor>x / 2\<rfloor> \<le> \<lfloor>x - 1\<rfloor>"
    by (rule floor_mono)
  then have less: "\<lfloor>x / 2\<rfloor> < \<lfloor>x\<rfloor>"
    by simp
  have "1 \<le> x"
    using x by simp
  then have pos: "0 < \<lfloor>x\<rfloor>"
    by simp
  have "0 < x / 2"
    using x by simp
  with less pos x show "(x / 2, x) \<in> measure (\<lambda>x. if x \<le> 0 then 0
                               else if 2 ^ 53 \<le> x then nat \<lfloor>x\<rfloor>
                               else if x < 2 ^ 52 then nat \<lfloor>2 ^ 53 / x\<rfloor> else 0)"
    by simp
next
  fix x :: rat
  assume x: "\<not> x \<le> 0" "\<not> 2 ^ 53 \<le> x" "x < 2 ^ 52"
  define a where "a = 2 ^ 53 / x"
  have "2 * x < 2 ^ 53"
    using x by simp
  then have a2: "2 < a"
    using x by (simp add: a_def field_simps)
  then have "a / 2 \<le> a - 1"
    by simp
  then have "\<lfloor>a / 2\<rfloor> \<le> \<lfloor>a - 1\<rfloor>"
    by (rule floor_mono)
  then have less: "\<lfloor>a / 2\<rfloor> < \<lfloor>a\<rfloor>"
    by simp
  have "1 \<le> a"
    using a2 by simp
  then have pos: "0 < \<lfloor>a\<rfloor>"
    by simp
  have eq: "2 ^ 53 / (2 * x) = a / 2"
    by (simp add: a_def)
  show "(2 * x, x) \<in> measure (\<lambda>x. if x \<le> 0 then 0
                               else if 2 ^ 53 \<le> x then nat \<lfloor>x\<rfloor>
                               else if x < 2 ^ 52 then nat \<lfloor>2 ^ 53 / x\<rfloor> else 0)"
    using x less pos unfolding in_measure eq a_def [symmetric]
    by (simp add: eq a_def [symmetric])
qed

declare fl_pos.simps [simp del]

definition fl :: "rat \<Rightarrow> rat" where
  "fl x = (if x < 0 then - fl_pos (- x) else fl_pos x)"

text \<open>The relative error of one rounding is at most \<open>2\<^sup>-\<^sup>5\<^sup>3\<close>.\<close>

definition unit_roundoff :: rat where
  "unit_roundoff = 1 / 2 ^ 53"

text \<open>
  \<^verbatim>\<open>Math.round\<close> returns the nearest integer, the larger one at a tie.
\<close>

definition Math_round :: "rat \<Rightarrow> int" where
  "Math_round x = \<lfloor>x + 1 / 2\<rfloor>"

text \<open>
  \<^verbatim>\<open>Math.max(...xs)\<close>; of no argument it is \<open>-\<infinity>\<close>, here \<open>None\<close>, which the
  order on \<open>int option\<close> puts below every number.
\<close>

definition Math_max :: "int list \<Rightarrow> int option" where
  "Math_max xs = foldr (\<lambda>x m. max (Some x) m) xs None"

text \<open>
  The results page:
  \<^verbatim>\<open>
  const pct = Math.round((score / maxScore) * 100)
  const maxScore = allUseCases.length === 0 ? 1
                 : Math.max(...allUseCases.map((uc) => uc.score), 1)
  \<close>
\<close>

definition RelevanceBadge :: "int \<Rightarrow> int \<Rightarrow> int" where
  "RelevanceBadge score' maxScore' = Math_round (fl (fl (of_int score' / of_int maxScore') * 100))"

definition maxScore :: "UseCase list \<Rightarrow> int" where
  "maxScore allUseCases =
     (if allUseCases = [] then 1 else foldr max (map score allUseCases) 1)"

text \<open>
  The notification e-mail:
  \<^verbatim>\<open>
  const pct = Math.round((score / Math.max(maxScore, 1)) * 100)
  const maxScore = useCases.length > 0 ? Math.max(...useCases.map(uc => uc.score), 1) : 1
  \<close>
\<close>

definition relevanceBadgeHtml :: "int \<Rightarrow> int \<Rightarrow> int" where
  "relevanceBadgeHtml score' maxScore' =
     Math_round (fl (fl (of_int score' / of_int (max maxScore' 1)) * 100))"

definition emailMaxScore :: "UseCase list \<Rightarrow> int" where
  "emailMaxScore useCases =
     (if length useCases > 0 then foldr max (map score useCases) 1 else 1)"

section \<open>The roadmap composer\<close>

subsection \<open>Objects keyed by free text\<close>

text \<open>
  The groups are built in an ordinary object, \<^verbatim>\<open>const groups = {}\<close>, whose
  prototype is \<^verbatim>\<open>Object.prototype\<close>. Reading \<^verbatim>\<open>groups[key]\<close> for a key that is
  not an own property finds the inherited property of that name, if there is one; all
  of them are functions or objects, hence truthy and without a \<^verbatim>\<open>push\<close> method.
\<close>

datatype js_error = TypeError

type_synonym groups = "(string \<times> UseCase list) list"

definition Object_prototype_names :: "string list" where
  "Object_prototype_names =
     [''constructor'', ''__defineGetter__'', ''__defineSetter__'', ''hasOwnProperty'',
      ''__lookupGetter__'', ''__lookupSetter__'', ''isPrototypeOf'', ''propertyIsEnumerable'',
      ''toString'', ''valueOf'', ''__proto__'', ''toLocaleString'']"

text \<open>Appending to the array of an own key, or creating the key at the end.\<close>

fun push_own :: "groups \<Rightarrow> string \<Rightarrow> UseCase \<Rightarrow> groups" where
  "push_own [] k uc = [(k, [uc])]"
| "push_own ((k', ucs) # groups) k uc =
     (if k' = k then (k', ucs @ [uc]) # groups else (k', ucs) # push_own groups k uc)"

text \<open>
  \<^verbatim>\<open>if (!groups[key]) groups[key] = []; groups[key].push(uc)\<close>: an own key has an
  array, which is truthy, and the use case is pushed; a key that is not there at all is
  created and the use case pushed; for a key that is only inherited nothing is created
  and the call of the missing \<^verbatim>\<open>push\<close> throws.
\<close>

definition push_group :: "groups \<Rightarrow> string \<Rightarrow> UseCase \<Rightarrow> js_error + groups" where
  "push_group groups k uc =
     (case map_of groups k of
        Some ucs \<Rightarrow> Inr (push_own groups k uc)
      | None \<Rightarrow>
          if k \<in> set Object_prototype_names then Inl TypeError
          else Inr (push_own groups k uc))"

text \<open>\<^verbatim>\<open>for (const uc of ucs) { const key = keyOf(uc); ... }\<close>\<close>

fun group_loop :: "(UseCase \<Rightarrow> string) \<Rightarrow> UseCase list \<Rightarrow> groups \<Rightarrow> js_error + groups" where
  "group_loop keyOf [] groups = Inr groups"
| "group_loop keyOf (uc # ucs) groups =
     (case push_group groups (keyOf uc) uc of
        Inl e \<Rightarrow> Inl e
      | Inr groups' \<Rightarrow> group_loop keyOf ucs groups')"

definition group_by :: "(UseCase \<Rightarrow> string) \<Rightarrow> UseCase list \<Rightarrow> js_error + groups" where
  "group_by keyOf ucs = group_loop keyOf ucs []"

text \<open>
  \<^verbatim>\<open>Object.entries\<close> lists the own keys that are array indices first, in ascending
  numeric order, and then the other keys in the order of their creation. An array index
  is the canonical decimal numeral of an integer from 0 to \<open>2\<^sup>3\<^sup>2 - 2\<close>.
\<close>

definition is_digit :: "char \<Rightarrow> bool" where
  "is_digit c \<longleftrightarrow> (48 :: nat) \<le> of_char c \<and> (of_char c :: nat) \<le> 57"

definition digit_value :: "char \<Rightarrow> nat" where
  "digit_value c = of_char c - 48"

definition numeric_value :: "string \<Rightarrow> nat" where
  "numeric_value s = fold (\<lambda>c n. 10 * n + digit_value c) s 0"

definition is_array_index :: "string \<Rightarrow> bool" where
  "is_array_index s \<longleftrightarrow>
     (case s of
        [] \<Rightarrow> False
      | c # cs \<Rightarrow>
          list_all is_digit s \<and> (c \<noteq> CHR ''0'' \<or> cs = []) \<and> numeric_value s \<le> 4294967294)"

definition Object_entries :: "(string \<times> 'v) list \<Rightarrow> (string \<times> 'v) list" where
  "Object_entries obj =
     sort_key (\<lambda>e. numeric_value (fst e)) (filter (\<lambda>e. is_array_index (fst e)) obj)
     @ filter (\<lambda>e. \<not> is_array_index (fst e)) obj"

text \<open>\<^verbatim>\<open>Array.prototype.map\<close> with a callback that may throw.\<close>

fun map_throwing :: "('a \<Rightarrow> js_error + 'b) \<Rightarrow> 'a list \<Rightarrow> js_error + 'b list" where
  "map_throwing f [] = Inr []"
| "map_throwing f (x # xs) =
     (case f x of
        Inl e \<Rightarrow> Inl e
      | Inr y \<Rightarrow> (case map_throwing f xs of Inl e \<Rightarrow> Inl e | Inr ys \<Rightarrow> Inr (y # ys)))"

text \<open>\<^verbatim>\<open>uc.sub_category || 'Other'\<close>\<close>

definition sub_category_or_Other :: "UseCase \<Rightarrow> string" where
  "sub_category_or_Other uc = (if sub_category uc = [] then ''Other'' else sub_category uc)"

subsection \<open>The results page\<close>

record Phase =
  key :: string
  label :: string

definition phases :: "Phase list" where
  "phases = [\<lparr>key = ''A'', label = ''Phase 1: Quick Wins''\<rparr>,
             \<lparr>key = ''B'', label = ''Phase 2: Discovery & Build''\<rparr>,
             \<lparr>key = ''C'', label = ''Phase 3: Strategic Initiatives''\<rparr>]"

record roadmap_phase =
  phase :: Phase
  groups :: groups
  total :: nat

text \<open>
  \<^verbatim>\<open>
  phases.map((phase) => {
    const phaseUseCases = allUseCases.filter((uc) => uc.engagement_category === phase.key)
    ... groups by sub_category ...
    const sortedGroups = Object.entries(groups).sort(([, a], [, b]) =>
        Math.max(...b.map((u) => u.score)) - Math.max(...a.map((u) => u.score)))
    return { phase, groups: sortedGroups, total: phaseUseCases.length }
  }).filter((p) => p.total > 0)
  \<close>
  \<open>compose_phase\<close> is the callback of \<^verbatim>\<open>phases.map\<close>.
\<close>

definition compose_phase :: "UseCase list \<Rightarrow> Phase \<Rightarrow> js_error + roadmap_phase" where
  "compose_phase allUseCases phase' =
     (let phaseUseCases = filter (\<lambda>uc. engagement_category uc = Some (key phase')) allUseCases
      in case group_by sub_category_or_Other phaseUseCases of
           Inl e \<Rightarrow> Inl e
         | Inr groups' \<Rightarrow>
             let sortedGroups =
                   js_sort (\<lambda>(_, a) (_, b). Math_max (map score b) \<le> Math_max (map score a))
                     (Object_entries groups')
             in Inr \<lparr>phase = phase', groups = sortedGroups, total = length phaseUseCases\<rparr>)"

definition roadmap :: "UseCase list \<Rightarrow> js_error + roadmap_phase list" where
  "roadmap allUseCases =
     (case map_throwing (compose_phase allUseCases) phases of
        Inl e \<Rightarrow> Inl e
      | Inr ps \<Rightarrow> Inr (filter (\<lambda>p. total p > 0) ps))"

text \<open>
  The page renders, for every phase, sub-category and use case of the roadmap,
  \<^verbatim>\<open><RelevanceBadge score={uc.score} maxScore={maxScore} />\<close>.
\<close>

definition roadmap_badges ::
  "UseCase list \<Rightarrow> js_error + (string \<times> (string \<times> (string \<times> int) list) list) list" where
  "roadmap_badges allUseCases =
     (case roadmap allUseCases of
        Inl e \<Rightarrow> Inl e
      | Inr ps \<Rightarrow>
          Inr (map (\<lambda>p. (key (phase p),
                 map (\<lambda>(subCat, useCases).
                        (subCat, map (\<lambda>uc. (uc_id uc, RelevanceBadge (score uc) (maxScore allUseCases))) useCases))
                   (groups p)))
            ps))"

subsection \<open>The notification e-mail\<close>

text \<open>
  \<^verbatim>\<open>buildEmailHtml\<close> produces HTML text; \<open>roadmapHtml\<close> is the structure that text
  lays out: one block per phase key, in it one block per sub-category, in it the use
  cases with their relevance badge.
  \<^verbatim>\<open>
  const phaseOrder = ["A", "B", "C"]
  for (const uc of useCases) { const key = uc.engagement_category || "B"; ... push ... }
  for (const phaseKey of phaseOrder) {
    const phaseUCs = grouped[phaseKey]
    if (!phaseUCs || phaseUCs.length === 0) continue
    ... subGroups by sub_category ...
    for (const [subCat, subUCs] of Object.entries(subGroups)) ...
  \<close>
  \<open>email_phase\<close> is one round of the loop over \<^verbatim>\<open>phaseOrder\<close>; it yields nothing
  where the loop continues.
\<close>

definition phaseOrder :: "string list" where
  "phaseOrder = [''A'', ''B'', ''C'']"

definition engagement_category_or_B :: "UseCase \<Rightarrow> string" where
  "engagement_category_or_B uc =
     (case engagement_category uc of None \<Rightarrow> ''B'' | Some c \<Rightarrow> if c = [] then ''B'' else c)"

definition email_phase :: "groups \<Rightarrow> string \<Rightarrow> js_error + (string \<times> groups) option" where
  "email_phase grouped phaseKey =
     (case map_of grouped phaseKey of
        None \<Rightarrow> Inr None
      | Some phaseUCs \<Rightarrow>
          if length phaseUCs = 0 then Inr None
          else case group_by sub_category_or_Other phaseUCs of
                 Inl e \<Rightarrow> Inl e
               | Inr subGroups \<Rightarrow> Inr (Some (phaseKey, Object_entries subGroups)))"

definition roadmapHtml :: "UseCase list \<Rightarrow> js_error + (string \<times> groups) list" where
  "roadmapHtml useCases =
     (case group_by engagement_category_or_B useCases of
        Inl e \<Rightarrow> Inl e
      | Inr grouped \<Rightarrow>
          (case map_throwing (email_phase grouped) phaseOrder of
             Inl e \<Rightarrow> Inl e
           | Inr blocks \<Rightarrow> Inr (List.map_filter id blocks)))"

definition roadmapHtml_badges ::
  "UseCase list \<Rightarrow> js_error + (string \<times> (string \<times> (string \<times> int) list) list) list" where
  "roadmapHtml_badges useCases =
     (case roadmapHtml useCases of
        Inl e \<Rightarrow> Inl e
      | Inr blocks \<Rightarrow>
          Inr (map (\<lambda>(phaseKey, subGroups).
                 (phaseKey,
                  map (\<lambda>(subCat, subUCs).
                         (subCat, map (\<lambda>uc. (uc_id uc, relevanceBadgeHtml (score uc) (emailMaxScore useCases))) subUCs))
                    subGroups))
            blocks))"

section \<open>The question flow\<close>

datatype question_type = MultipleChoice | YesNo | Checkbox

record Question =
  q_id :: string
  question_text :: string
  question_type :: question_type
  options :: "string list option"
  condition_question_id :: "string option"
  condition_answer :: "string option"

record FlatQuestion =
  question :: Question
  sectionTitle :: string

text \<open>JavaScript's \<^verbatim>\<open>!v\<close> for \<^verbatim>\<open>v: string | null\<close>.\<close>

definition falsy :: "string option \<Rightarrow> bool" where
  "falsy v = (case v of None \<Rightarrow> True | Some s \<Rightarrow> s = [])"

text \<open>
  \<^verbatim>\<open>
  flatQuestions.filter(fq => {
    const q = fq.question
    if (!q.condition_question_id || !q.condition_answer) return true
    const condAnswer = answers[q.condition_question_id]
    if (condAnswer === undefined || condAnswer === null) return false
    if (Array.isArray(condAnswer)) return condAnswer.includes(q.condition_answer)
    return condAnswer === q.condition_answer
  })
  \<close>
\<close>

definition visible :: "(string \<rightharpoonup> answer_value) \<Rightarrow> FlatQuestion \<Rightarrow> bool" where
  "visible answers fq =
     (let q = question fq
      in if falsy (condition_question_id q) \<or> falsy (condition_answer q) then True
         else case (condition_question_id q, condition_answer q) of
                (Some c, Some required) \<Rightarrow>
                  (case answers c of
                     None \<Rightarrow> False
                   | Some (Multi values) \<Rightarrow> required \<in> set values
                   | Some (Scalar v) \<Rightarrow> v = required)
              | _ \<Rightarrow> True)"

definition visibleQuestions :: "FlatQuestion list \<Rightarrow> (string \<rightharpoonup> answer_value) \<Rightarrow> FlatQuestion list" where
  "visibleQuestions flatQuestions answers = filter (visible answers) flatQuestions"

section \<open>Notions used in the statements\<close>

text \<open>
  The increments \<open>(use case, weight)\<close> in the order in which the three loops of the
  scoring engine apply them, and the (question, value) pairs the answers expand to.
\<close>

definition pending ::
  "(decision_matrix \<Rightarrow> int) \<Rightarrow> decision_matrix list \<Rightarrow> response list \<Rightarrow> (string \<times> int) list" where
  "pending wt table responses =
     concat (map (\<lambda>r. concat (map (\<lambda>a. map (\<lambda>m. (use_case_id m, wt m))
                                             (matches table (response.question_id r) a))
                                  (answersToCheck (answer r)))) responses)"

definition answer_pairs :: "response list \<Rightarrow> (string \<times> string) list" where
  "answer_pairs responses =
     concat (map (\<lambda>r. map (\<lambda>a. (response.question_id r, a)) (answersToCheck (answer r))) responses)"

text \<open>Some row of the table matches some recorded (question, value) pair and names \<open>k\<close>.\<close>

definition has_match :: "decision_matrix list \<Rightarrow> response list \<Rightarrow> string \<Rightarrow> bool" where
  "has_match table responses k =
     list_ex (\<lambda>r. list_ex (\<lambda>a. list_ex (\<lambda>m. use_case_id m = k)
                                     (matches table (response.question_id r) a))
                          (answersToCheck (answer r))) responses"

text \<open>The score of a use case in a score table; a missing key reads as 0, as \<^verbatim>\<open>scores[k] || 0\<close>.\<close>

definition score_of :: "(string \<times> int) list \<Rightarrow> string \<Rightarrow> int" where
  "score_of scores k = (case map_of scores k of None \<Rightarrow> 0 | Some s \<Rightarrow> s)"

definition total_for :: "string \<Rightarrow> (string \<times> int) list \<Rightarrow> int" where
  "total_for k es = sum_list (map snd (filter (\<lambda>e. fst e = k) es))"

text \<open>The elements of a list in the order of their first occurrence.\<close>

fun first_occurrences :: "'a list \<Rightarrow> 'a list" where
  "first_occurrences [] = []"
| "first_occurrences (x # xs) = x # filter (\<lambda>y. y \<noteq> x) (first_occurrences xs)"

text \<open>The increments that one (question, value) pair causes.\<close>

definition hits ::
  "(decision_matrix \<Rightarrow> int) \<Rightarrow> decision_matrix list \<Rightarrow> string \<times> string \<Rightarrow> (string \<times> int) list" where
  "hits wt table p = map (\<lambda>m. (use_case_id m, wt m)) (matches table (fst p) (snd p))"

text \<open>
  The grouping that creates every key it does not find (what the loop does as long as
  no key is an inherited name), the members of a group, the largest score in a group
  (the key of the comparison that sorts the groups), and what it means for a list of
  groups to partition the use cases of a phase by sub-category and to be ordered by the
  largest score in each group.
\<close>

definition own_groups :: "(UseCase \<Rightarrow> string) \<Rightarrow> UseCase list \<Rightarrow> groups" where
  "own_groups keyOf ucs = fold (\<lambda>uc groups. push_own groups (keyOf uc) uc) ucs []"

definition members :: "groups \<Rightarrow> string \<Rightarrow> UseCase list" where
  "members groups' k = (case map_of groups' k of None \<Rightarrow> [] | Some ucs \<Rightarrow> ucs)"

definition group_max :: "string \<times> UseCase list \<Rightarrow> int option" where
  "group_max g = Math_max (map score (snd g))"

definition grouped_by_sub_category :: "UseCase list \<Rightarrow> (string \<times> UseCase list) list \<Rightarrow> bool" where
  "grouped_by_sub_category phaseUseCases gs \<longleftrightarrow>
     distinct (map fst gs)
     \<and> (\<forall>(k, g) \<in> set gs. g \<noteq> [] \<and> g = filter (\<lambda>uc. sub_category_or_Other uc = k) phaseUseCases)
     \<and> (\<forall>uc \<in> set phaseUseCases. sub_category_or_Other uc \<in> fst ` set gs)"

definition ordered_by_max_score :: "(string \<times> UseCase list) list \<Rightarrow> bool" where
  "ordered_by_max_score gs \<longleftrightarrow>
     sorted_wrt (\<lambda>g h. group_max h \<le> group_max g) gs
     \<and> (case gs of [] \<Rightarrow> True
         | g # _ \<Rightarrow> \<forall>h \<in> set gs. \<forall>uc \<in> set (snd h). Some (score uc) \<le> group_max g)"

definition descending :: "UseCase list \<Rightarrow> bool" where
  "descending ucs = sorted_wrt (\<lambda>a b. score b \<le> score a) ucs"

text \<open>
  The identifiers in a list of sub-category groups, and in the whole roadmap of the page
  and of the e-mail, for display.
\<close>

definition group_ids :: "groups \<Rightarrow> (string \<times> string list) list" where
  "group_ids gs = map (\<lambda>(subCat, ucs). (subCat, map uc_id ucs)) gs"

definition roadmap_ids :: "UseCase list \<Rightarrow> js_error + (string \<times> (string \<times> string list) list) list" where
  "roadmap_ids ucs =
     (case roadmap ucs of Inl e \<Rightarrow> Inl e
      | Inr ps \<Rightarrow> Inr (map (\<lambda>p. (key (phase p), group_ids (groups p))) ps))"

definition roadmapHtml_ids :: "UseCase list \<Rightarrow> js_error + (string \<times> (string \<times> string list) list) list" where
  "roadmapHtml_ids ucs =
     (case roadmapHtml ucs of Inl e \<Rightarrow> Inl e
      | Inr blocks \<Rightarrow> Inr (map (\<lambda>(phaseKey, subGroups). (phaseKey, group_ids subGroups)) blocks))"

text \<open>The largest score of every group of the roadmap, of the page and of the e-mail.\<close>

definition roadmap_maxima :: "UseCase list \<Rightarrow> js_error + (string \<times> (string \<times> int option) list) list" where
  "roadmap_maxima ucs =
     (case roadmap ucs of Inl e \<Rightarrow> Inl e
      | Inr ps \<Rightarrow> Inr (map (\<lambda>p. (key (phase p), map (\<lambda>g. (fst g, group_max g)) (groups p))) ps))"

definition roadmapHtml_maxima :: "UseCase list \<Rightarrow> js_error + (string \<times> (string \<times> int option) list) list" where
  "roadmapHtml_maxima ucs =
     (case roadmapHtml ucs of Inl e \<Rightarrow> Inl e
      | Inr blocks \<Rightarrow>
          Inr (map (\<lambda>(phaseKey, subGroups). (phaseKey, map (\<lambda>g. (fst g, group_max g)) subGroups)) blocks))"

text \<open>The specification's \<open>round(100 * score / D)\<close>, in exact arithmetic.\<close>

definition spec_percentage :: "int \<Rightarrow> int \<Rightarrow> int" where
  "spec_percentage s D = Math_round (100 * of_int s / of_int D)"

text \<open>\<open>100 * s / D\<close> lies exactly halfway between two integers.\<close>

definition is_tie :: "int \<Rightarrow> int \<Rightarrow> bool" where
  "is_tie s D \<longleftrightarrow> (200 * s + D) mod (2 * D) = 0"

section \<open>Example data\<close>

text \<open>
  The scoring scenario: three rules, a yes/no answer and a multi-select answer, and the
  two catalogue rows they recommend (stored in the opposite order).
\<close>

definition scenario_rules :: "decision_matrix list" where
  "scenario_rules =
     [\<lparr>question_id = ''Q1'', triggering_answer = ''Yes'', use_case_id = ''O1'', weight = 5\<rparr>,
      \<lparr>question_id = ''Q2'', triggering_answer = ''X'', use_case_id = ''O1'', weight = 2\<rparr>,
      \<lparr>question_id = ''Q2'', triggering_answer = ''Y'', use_case_id = ''O2'', weight = 3\<rparr>]"

definition scenario_responses :: "response list" where
  "scenario_responses =
     [\<lparr>response.question_id = ''Q1'', answer = Scalar ''Yes''\<rparr>,
      \<lparr>response.question_id = ''Q2'', answer = Multi [''X'', ''Y'']\<rparr>]"

definition scenario_use_cases :: "use_case list" where
  "scenario_use_cases =
     [\<lparr>uc_id = ''O2'', title = ''Second'', category = ''Integration'', sub_category = ''Data'',
       engagement_category = Some ''B'', use_case_number = Some 2\<rparr>,
      \<lparr>uc_id = ''O1'', title = ''First'', category = ''Integration'', sub_category = ''Data'',
       engagement_category = Some ''A'', use_case_number = Some 1\<rparr>]"

text \<open>The scenario with one more rule, which gives a third use case the score 2.\<close>

definition cutoff_rules :: "decision_matrix list" where
  "cutoff_rules =
     \<lparr>question_id = ''Q1'', triggering_answer = ''Yes'', use_case_id = ''O3'', weight = 2\<rparr>
       # scenario_rules"

text \<open>The same answers recorded in another order, and a further rule for \<open>O1\<close>.\<close>

definition scenario_responses_reordered :: "response list" where
  "scenario_responses_reordered =
     [\<lparr>response.question_id = ''Q2'', answer = Multi [''Y'', ''X'']\<rparr>,
      \<lparr>response.question_id = ''Q1'', answer = Scalar ''Yes''\<rparr>]"

definition extra_rule :: decision_matrix where
  "extra_rule = \<lparr>question_id = ''Q2'', triggering_answer = ''Y'', use_case_id = ''O1'', weight = 4\<rparr>"

text \<open>
  The question-flow scenario: an unconditional yes/no question, a question shown when the
  first is answered Yes, and a question whose condition names the first question but
  has the empty string as required value.
\<close>

definition flat_Q1 :: FlatQuestion where
  "flat_Q1 = \<lparr>question = \<lparr>q_id = ''Q1'', question_text = ''Do you run SAP today'', question_type = YesNo,
       options = None, condition_question_id = None, condition_answer = None\<rparr>,
     sectionTitle = ''Landscape''\<rparr>"

definition flat_Q2 :: FlatQuestion where
  "flat_Q2 = \<lparr>question = \<lparr>q_id = ''Q2'', question_text = ''Which edition'', question_type = MultipleChoice,
       options = Some [''X'', ''Y''], condition_question_id = Some ''Q1'', condition_answer = Some ''Yes''\<rparr>,
     sectionTitle = ''Landscape''\<rparr>"

definition flat_Q3 :: FlatQuestion where
  "flat_Q3 = \<lparr>question = \<lparr>q_id = ''Q3'', question_text = ''Which modules'', question_type = Checkbox,
       options = Some [''FI'', ''CO''], condition_question_id = Some ''Q1'', condition_answer = Some []\<rparr>,
     sectionTitle = ''Landscape''\<rparr>"

text \<open>
  The composer scenario: three use cases of phase A in the order of their scores, and a
  use case that has no phase.
\<close>

definition composer_scenario :: "UseCase list" where
  "composer_scenario =
     [\<lparr>uc_id = ''O3'', title = ''Third'', category = ''Platform'', sub_category = ''Data'',
       engagement_category = Some ''A'', use_case_number = Some 3, score = 10\<rparr>,
      \<lparr>uc_id = ''O4'', title = ''Fourth'', category = ''Platform'', sub_category = ''Security'',
       engagement_category = Some ''A'', use_case_number = Some 4, score = 2\<rparr>,
      \<lparr>uc_id = ''O5'', title = ''Fifth'', category = ''Platform'', sub_category = ''Data'',
       engagement_category = Some ''A'', use_case_number = Some 5, score = 1\<rparr>]"

definition unphased_use_case :: UseCase where
  "unphased_use_case =
     \<lparr>uc_id = ''O9'', title = ''Ninth'', category = ''Platform'', sub_category = ''Data'',
      engagement_category = None, use_case_number = None, score = 5\<rparr>"

text \<open>A result set in which the percentage of the second use case is a tie, 57.5.\<close>

definition tie_first :: UseCase where
  "tie_first = \<lparr>uc_id = ''O1'', title = ''First'', category = ''Integration'', sub_category = ''Data'',
     engagement_category = Some ''A'', use_case_number = Some 1, score = 40\<rparr>"

definition tie_second :: UseCase where
  "tie_second = \<lparr>uc_id = ''O2'', title = ''Second'', category = ''Integration'', sub_category = ''Data'',
     engagement_category = Some ''B'', use_case_number = Some 2, score = 23\<rparr>"

text \<open>
  A question without a controlling question but with a required value, and answers that
  record the same pair once and twice (two rows of \<^verbatim>\<open>responses\<close> for one
  question), with a rule of weight 2 that the pair matches.
\<close>

definition flat_Q4 :: FlatQuestion where
  "flat_Q4 = \<lparr>question = \<lparr>q_id = ''Q4'', question_text = ''Which region'', question_type = YesNo,
       options = None, condition_question_id = None, condition_answer = Some ''Yes''\<rparr>,
     sectionTitle = ''Landscape''\<rparr>"

definition repeated_rules :: "decision_matrix list" where
  "repeated_rules =
     [\<lparr>question_id = ''Q1'', triggering_answer = ''Yes'', use_case_id = ''O1'', weight = 2\<rparr>]"

definition once_responses :: "response list" where
  "once_responses = [\<lparr>response.question_id = ''Q1'', answer = Scalar ''Yes''\<rparr>]"

definition twice_responses :: "response list" where
  "twice_responses =
     [\<lparr>response.question_id = ''Q1'', answer = Scalar ''Yes''\<rparr>,
      \<lparr>response.question_id = ''Q1'', answer = Scalar ''Yes''\<rparr>]"

text \<open>
  A ranking of two use cases of phase A whose sub-category labels are numerals, and a use
  case whose sub-category is the name of an inherited property.
\<close>

definition numbered_ranking :: "UseCase list" where
  "numbered_ranking =
     [\<lparr>uc_id = ''N2'', title = ''Second wave'', category = ''Platform'', sub_category = ''2'',
       engagement_category = Some ''A'', use_case_number = Some 7, score = 9\<rparr>,
      \<lparr>uc_id = ''N1'', title = ''First wave'', category = ''Platform'', sub_category = ''1'',
       engagement_category = Some ''A'', use_case_number = Some 8, score = 5\<rparr>]"

definition inherited_name_use_case :: UseCase where
  "inherited_name_use_case =
     \<lparr>uc_id = ''P1'', title = ''Builder'', category = ''Platform'', sub_category = ''constructor'',
      engagement_category = Some ''A'', use_case_number = Some 9, score = 4\<rparr>"

section \<open>Sorting and accumulation lemmas\<close>


lemma set_insort_by: "set (insort_by le x ys) = insert x (set ys)"
  by (induction ys) auto

lemma insort_by_key:
  "(\<And>y. y \<in> set ys \<Longrightarrow> le x y = (f x \<le> f y)) \<Longrightarrow> insort_by le x ys = insort_key f x ys"
  by (induction ys) auto

lemma js_sort_key:
  "(\<And>x y. x \<in> set xs \<Longrightarrow> y \<in> set xs \<Longrightarrow> le x y = (f x \<le> f y)) \<Longrightarrow>
   js_sort le xs = sort_key f xs"
proof (induction xs)
  case Nil
  show ?case by (simp add: js_sort_def)
next
  case (Cons x xs)
  have "js_sort le xs = sort_key f xs"
    using Cons by simp
  moreover have "insort_by le x (sort_key f xs) = insort_key f x (sort_key f xs)"
    by (rule insort_by_key) (simp add: Cons.prems)
  ultimately show ?case
    by (simp add: js_sort_def sort_key_def)
qed

lemma js_sort_desc_score:
  "js_sort (\<lambda>(_, a) (_, b). b - a \<le> 0) (xs :: (string \<times> int) list) = sort_key (\<lambda>e. - snd e) xs"
  by (rule js_sort_key) (auto split: prod.splits)

lemma sorted_wrt_desc_iff: "sorted_wrt (\<lambda>x y. g y \<le> g x) xs = sorted (map (\<lambda>e. - g e) xs)" for g :: "'a \<Rightarrow> int"
  by (induction xs) auto

lemma fold_concat_map: "fold (\<lambda>x. fold f (g x)) xs s = fold f (concat (map g xs)) s"
  by (induction xs arbitrary: s) auto

lemma accumulate_fold:
  "accumulate wt table responses = fold (\<lambda>e scores. add_score scores (fst e) (snd e)) (pending wt table responses) []"
proof -
  let ?add = "\<lambda>e scores. add_score scores (fst e) (snd e)"
  have 1: "fold (\<lambda>m scores. add_score scores (use_case_id m) (wt m)) ms =
           fold ?add (map (\<lambda>m. (use_case_id m, wt m)) ms)" for ms
    by (simp add: fold_map comp_def)
  have 2: "fold (\<lambda>a. fold ?add (g a)) as = fold ?add (concat (map g as))" for g :: "'b \<Rightarrow> (string \<times> int) list" and as
    by (rule ext) (rule fold_concat_map)
  show ?thesis
    by (simp only: accumulate_def pending_def 1 2)
qed

lemma keys_add_score:
  "map fst (add_score scores k w) = (if k \<in> fst ` set scores then map fst scores else map fst scores @ [k])"
  by (induction scores k w rule: add_score.induct) auto

lemma map_of_add_score:
  "map_of (add_score scores k w) = (map_of scores)(k \<mapsto> score_of scores k + w)"
  by (induction scores k w rule: add_score.induct) (auto simp: score_of_def fun_eq_iff)

lemma score_of_add_score:
  "score_of (add_score scores k w) k' = score_of scores k' + (if k' = k then w else 0)"
  by (simp add: score_of_def map_of_add_score)

lemma score_of_fold:
  "score_of (fold (\<lambda>e scores. add_score scores (fst e) (snd e)) es scores) k = score_of scores k + total_for k es"
  by (induction es arbitrary: scores) (auto simp: score_of_add_score total_for_def)

lemma keys_fold_set:
  "fst ` set (fold (\<lambda>e scores. add_score scores (fst e) (snd e)) es scores) = fst ` set scores \<union> fst ` set es"
proof (induction es arbitrary: scores)
  case Nil
  show ?case by simp
next
  case (Cons e es)
  have "fst ` set (add_score scores (fst e) (snd e)) = insert (fst e) (fst ` set scores)"
    using keys_add_score [of scores "fst e" "snd e"]
    by (metis (no_types, lifting) image_set insert_absorb list.simps(15) set_append Un_insert_right sup_bot.right_neutral empty_set)
  then show ?case
    using Cons.IH [of "add_score scores (fst e) (snd e)"] by auto
qed

lemma distinct_add_score: "distinct (map fst scores) \<Longrightarrow> distinct (map fst (add_score scores k w))"
  by (simp add: keys_add_score)

lemma distinct_fold:
  "distinct (map fst scores) \<Longrightarrow> distinct (map fst (fold (\<lambda>e scores. add_score scores (fst e) (snd e)) es scores))"
  by (induction es arbitrary: scores) (auto simp: distinct_add_score)

lemma first_occurrences_set: "set (first_occurrences xs) = set xs"
  by (induction xs) auto

lemma first_occurrences_distinct: "distinct (first_occurrences xs)"
  by (induction xs) (auto simp: first_occurrences_set)

lemma keys_fold:
  "map fst (fold (\<lambda>e scores. add_score scores (fst e) (snd e)) es scores) =
     map fst scores @ filter (\<lambda>k. k \<notin> fst ` set scores) (first_occurrences (map fst es))"
proof (induction es arbitrary: scores)
  case Nil
  show ?case by simp
next
  case (Cons e es)
  let ?s = "add_score scores (fst e) (snd e)"
  have IH: "map fst (fold (\<lambda>e scores. add_score scores (fst e) (snd e)) es ?s) =
     map fst ?s @ filter (\<lambda>k. k \<notin> fst ` set ?s) (first_occurrences (map fst es))"
    by (rule Cons.IH)
  have keys: "fst ` set ?s = insert (fst e) (fst ` set scores)"
    using keys_fold_set [of "[e]" scores] by simp
  show ?case
  proof (cases "fst e \<in> fst ` set scores")
    case True
    then have "map fst ?s = map fst scores"
      by (simp add: keys_add_score)
    moreover have "filter (\<lambda>k. k \<notin> fst ` set scores) (filter (\<lambda>y. y \<noteq> fst e) (first_occurrences (map fst es)))
         = filter (\<lambda>k. k \<notin> fst ` set scores) (first_occurrences (map fst es))"
      using True by (auto intro: filter_cong)
    ultimately show ?thesis
      using True IH keys by (simp add: insert_absorb)
  next
    case False
    then have "map fst ?s = map fst scores @ [fst e]"
      by (simp add: keys_add_score)
    moreover have "filter (\<lambda>k. k \<notin> insert (fst e) (fst ` set scores)) (first_occurrences (map fst es))
       = filter (\<lambda>k. k \<notin> fst ` set scores) (filter (\<lambda>y. y \<noteq> fst e) (first_occurrences (map fst es)))"
      by (auto intro: filter_cong)
    ultimately show ?thesis
      using False IH keys by simp
  qed
qed




lemma has_match_iff: "has_match table responses k \<longleftrightarrow> k \<in> fst ` set (pending wt table responses)"
proof -
  have "fst ` set (pending wt table responses) =
        (\<Union>r\<in>set responses. \<Union>a\<in>set (answersToCheck (answer r)).
            use_case_id ` set (matches table (response.question_id r) a))"
    by (simp add: pending_def image_UN image_image)
  moreover have "has_match table responses k \<longleftrightarrow>
        k \<in> (\<Union>r\<in>set responses. \<Union>a\<in>set (answersToCheck (answer r)).
            use_case_id ` set (matches table (response.question_id r) a))"
    unfolding has_match_def list_ex_iff by blast
  ultimately show ?thesis
    by simp
qed

lemma keys_accumulate: "fst ` set (accumulate wt table responses) = fst ` set (pending wt table responses)"
  by (simp add: accumulate_fold keys_fold_set)

lemma distinct_accumulate: "distinct (map fst (accumulate wt table responses))"
  by (simp add: accumulate_fold distinct_fold)

lemma score_of_accumulate: "score_of (accumulate wt table responses) k = total_for k (pending wt table responses)"
  using score_of_fold [of "pending wt table responses" "[]" k]
  by (simp add: accumulate_fold score_of_def)

lemma map_of_accumulate:
  "map_of (accumulate wt table responses) k =
     (if k \<in> fst ` set (pending wt table responses) then Some (total_for k (pending wt table responses)) else None)"
proof (cases "k \<in> fst ` set (pending wt table responses)")
  case True
  then have "k \<in> fst ` set (accumulate wt table responses)"
    by (simp add: keys_accumulate)
  then obtain v where v: "map_of (accumulate wt table responses) k = Some v"
    by (cases "map_of (accumulate wt table responses) k") (auto simp: map_of_eq_None_iff)
  then have "score_of (accumulate wt table responses) k = v"
    by (simp add: score_of_def)
  with v True show ?thesis
    by (simp add: score_of_accumulate)
next
  case False
  then have "k \<notin> fst ` set (accumulate wt table responses)"
    by (simp add: keys_accumulate)
  with False show ?thesis
    by (simp add: map_of_eq_None_iff)
qed

lemma entry_accumulate:
  "(k, s) \<in> set (accumulate wt table responses) \<longleftrightarrow>
     k \<in> fst ` set (pending wt table responses) \<and> s = total_for k (pending wt table responses)"
proof -
  have "(k, s) \<in> set (accumulate wt table responses) \<longleftrightarrow>
        map_of (accumulate wt table responses) k = Some s"
    using distinct_accumulate [of wt table responses] by simp
  also have "\<dots> \<longleftrightarrow> k \<in> fst ` set (pending wt table responses) \<and>
        s = total_for k (pending wt table responses)"
    unfolding map_of_accumulate by (cases "k \<in> fst ` set (pending wt table responses)") auto
  finally show ?thesis .
qed

lemma set_js_sort: "set (js_sort le xs) = set xs"
  by (induction xs) (auto simp: js_sort_def set_insort_by)

lemma set_cutoff_and_sort:
  "set (cutoff_and_sort minScore scores) = {e \<in> set scores. minScore \<le> snd e}"
  by (auto simp: cutoff_and_sort_def set_js_sort)

lemma total_for_ones:
  assumes "k \<in> fst ` set es" and "\<And>e. e \<in> set es \<Longrightarrow> snd e = 1"
  shows "1 \<le> total_for k es"
proof -
  have "map snd (filter (\<lambda>e. fst e = k) es) = replicate (length (filter (\<lambda>e. fst e = k) es)) 1"
    using assms(2) by (induction es) auto
  then have "total_for k es = int (length (filter (\<lambda>e. fst e = k) es))"
    by (simp add: total_for_def sum_list_replicate)
  moreover have "filter (\<lambda>e. fst e = k) es \<noteq> []"
    using assms(1) by (auto simp: filter_empty_conv)
  ultimately show ?thesis
    by (cases "filter (\<lambda>e. fst e = k) es") auto
qed

section \<open>The cutoff\<close>

text \<open>
  C3. No use case whose accumulated score is below the threshold is in the output of the
  scoring engine: with a threshold \<open>minScore\<close> in general, with the threshold 3 of the
  weighted engine, and with the threshold 0 of the earlier, unweighted engine, where
  every match qualifies. A use case that no rule matches for any recorded answer is not
  in the output at all; in particular it is not there with the score 0.
\<close>

theorem cutoff_correct:
  "(\<forall>(k, s) \<in> set (cutoff_and_sort minScore (accumulate wt table responses)).
       minScore \<le> s \<and> has_match table responses k)
   \<and> (\<forall>(k, s) \<in> set (sortedEntries table responses). 3 \<le> s \<and> has_match table responses k)
   \<and> (\<forall>(k, s) \<in> set (legacySortedEntries table responses). 0 \<le> s \<and> has_match table responses k)"
proof (intro conjI)
  show general: "\<forall>(k, s) \<in> set (cutoff_and_sort minScore (accumulate wt table responses)).
       minScore \<le> s \<and> has_match table responses k" for minScore wt
  proof clarify
    fix k s
    assume "(k, s) \<in> set (cutoff_and_sort minScore (accumulate wt table responses))"
    then have "minScore \<le> s" and "(k, s) \<in> set (accumulate wt table responses)"
      by (simp_all add: set_cutoff_and_sort)
    then show "minScore \<le> s \<and> has_match table responses k"
      by (simp add: entry_accumulate has_match_iff [of _ _ _ wt])
  qed
  show "\<forall>(k, s) \<in> set (sortedEntries table responses). 3 \<le> s \<and> has_match table responses k"
    using general [of MIN_SCORE weight_or_1]
    by (simp add: sortedEntries_def useCaseScores_def MIN_SCORE_def)
  show "\<forall>(k, s) \<in> set (legacySortedEntries table responses). 0 \<le> s \<and> has_match table responses k"
  proof clarify
    fix k s
    assume "(k, s) \<in> set (legacySortedEntries table responses)"
    then have in_scores: "(k, s) \<in> set (accumulate (\<lambda>_. 1) table responses)"
      by (simp add: legacySortedEntries_def legacyScores_def set_js_sort)
    then have k: "k \<in> fst ` set (pending (\<lambda>_. 1) table responses)"
      and s: "s = total_for k (pending (\<lambda>_. 1) table responses)"
      by (simp_all add: entry_accumulate)
    have "snd e = 1" if "e \<in> set (pending (\<lambda>_. 1) table responses)" for e
      using that by (auto simp: pending_def)
    with k have "1 \<le> total_for k (pending (\<lambda>_. 1) table responses)"
      by (rule total_for_ones)
    with k s show "0 \<le> s \<and> has_match table responses k"
      by (simp add: has_match_iff [of _ _ _ "\<lambda>_. 1"])
  qed
qed

theorem cutoff_correct_witness:
  "(''O1'', 7) \<in> set (sortedEntries cutoff_rules scenario_responses)
   \<and> (3::int) \<le> 7 \<and> has_match cutoff_rules scenario_responses ''O1''
   \<and> useCaseScores cutoff_rules scenario_responses = [(''O3'', 2), (''O1'', 7), (''O2'', 3)]
   \<and> sortedEntries cutoff_rules scenario_responses = [(''O1'', 7), (''O2'', 3)]"
proof -
  have scores: "useCaseScores cutoff_rules scenario_responses = [(''O3'', 2), (''O1'', 7), (''O2'', 3)]"
    by (simp add: useCaseScores_def accumulate_def matches_def answersToCheck_def
        cutoff_rules_def scenario_rules_def scenario_responses_def weight_or_1_def)
  then have sorted: "sortedEntries cutoff_rules scenario_responses = [(''O1'', 7), (''O2'', 3)]"
    by (simp add: sortedEntries_def cutoff_and_sort_def MIN_SCORE_def js_sort_def)
  then have "(''O1'', 7) \<in> set (sortedEntries cutoff_rules scenario_responses)"
    by simp
  with cutoff_correct [of 3 weight_or_1 cutoff_rules scenario_responses]
  have "(3::int) \<le> 7 \<and> has_match cutoff_rules scenario_responses ''O1''"
    by blast
  with scores sorted show ?thesis
    by simp
qed

section \<open>The order of the ranking\<close>

text \<open>
  C4. The output of the scoring engine is sorted by descending score and by nothing
  else: it is the stable sort, on the negated score, of the entries that pass the
  cutoff. Entries with the same score therefore stand in the order they have in the score
  table, and the keys of the score table stand in the order in which the accumulation
  first met each use case.
\<close>

theorem ranking_order:
  "sorted_wrt (\<lambda>x y. snd y \<le> snd x) (sortedEntries table responses)
   \<and> (\<forall>s. filter (\<lambda>e. snd e = s) (sortedEntries table responses) =
            filter (\<lambda>e. snd e = s) (filter (\<lambda>(_, score). score \<ge> MIN_SCORE) (useCaseScores table responses)))
   \<and> map fst (useCaseScores table responses) = first_occurrences (map fst (pending weight_or_1 table responses))
   \<and> sortedEntries table responses =
        sort_key (\<lambda>e. - snd e) (filter (\<lambda>(_, score). score \<ge> MIN_SCORE) (useCaseScores table responses))"
proof -
  let ?kept = "filter (\<lambda>(_, score). score \<ge> MIN_SCORE) (useCaseScores table responses)"
  have eq: "sortedEntries table responses = sort_key (\<lambda>e. - snd e) ?kept"
    unfolding sortedEntries_def cutoff_and_sort_def by (rule js_sort_desc_score)
  have "sorted (map (\<lambda>e. - snd e) (sort_key (\<lambda>e. - snd e) ?kept))"
    by (rule sorted_sort_key)
  then have 1: "sorted_wrt (\<lambda>x y. snd y \<le> snd x) (sortedEntries table responses)"
    by (simp add: eq sorted_wrt_desc_iff [of snd])
  have 2: "filter (\<lambda>e. snd e = s) (sortedEntries table responses) = filter (\<lambda>e. snd e = s) ?kept" for s
  proof -
    have "filter (\<lambda>e. - snd e = - s) (sort_key (\<lambda>e. - snd e) ?kept) = filter (\<lambda>e. - snd e = - s) ?kept"
      by (rule sort_key_stable)
    then show ?thesis
      by (simp add: eq)
  qed
  have 3: "map fst (useCaseScores table responses) = first_occurrences (map fst (pending weight_or_1 table responses))"
    by (simp add: useCaseScores_def accumulate_fold keys_fold)
  from 1 2 3 eq show ?thesis
    by blast
qed




lemma floor_rat_numeral_divide: "\<lfloor>numeral a / numeral b :: rat\<rfloor> = numeral a div numeral b"
  using floor_divide_of_int_eq [of "numeral a" "numeral b", where ?'a = rat] by simp

lemma floor_rat_one_divide: "\<lfloor>1 / numeral b :: rat\<rfloor> = 1 div numeral b"
  using floor_divide_of_int_eq [of 1 "numeral b", where ?'a = rat] by simp

lemmas fl_eval = Math_round_def fl_def fl_pos.simps round_half_even_def Let_def
  floor_rat_numeral_divide floor_rat_one_divide

section \<open>The scoring scenario\<close>

lemma scenario_ranked:
  "useCaseScores scenario_rules scenario_responses = [(''O1'', 7), (''O2'', 3)]"
  "sortedEntries scenario_rules scenario_responses = [(''O1'', 7), (''O2'', 3)]"
  "clientSideProcessing scenario_use_cases scenario_rules scenario_responses =
      [\<lparr>uc_id = ''O1'', title = ''First'', category = ''Integration'', sub_category = ''Data'',
        engagement_category = Some ''A'', use_case_number = Some 1, score = 7\<rparr>,
       \<lparr>uc_id = ''O2'', title = ''Second'', category = ''Integration'', sub_category = ''Data'',
        engagement_category = Some ''B'', use_case_number = Some 2, score = 3\<rparr>]"
proof -
  show scores: "useCaseScores scenario_rules scenario_responses = [(''O1'', 7), (''O2'', 3)]"
    by (simp add: useCaseScores_def accumulate_def matches_def answersToCheck_def
        scenario_rules_def scenario_responses_def weight_or_1_def)
  then show entries: "sortedEntries scenario_rules scenario_responses = [(''O1'', 7), (''O2'', 3)]"
    by (simp add: sortedEntries_def cutoff_and_sort_def MIN_SCORE_def js_sort_def)
  show "clientSideProcessing scenario_use_cases scenario_rules scenario_responses =
      [\<lparr>uc_id = ''O1'', title = ''First'', category = ''Integration'', sub_category = ''Data'',
        engagement_category = Some ''A'', use_case_number = Some 1, score = 7\<rparr>,
       \<lparr>uc_id = ''O2'', title = ''Second'', category = ''Integration'', sub_category = ''Data'',
        engagement_category = Some ''B'', use_case_number = Some 2, score = 3\<rparr>]"
    by (simp add: clientSideProcessing_def entries ordered_def scenario_use_cases_def
        List.map_filter_simps scoreMap_or_0_def use_case.extend_def UseCase.fields_def)
qed

text \<open>
  C1. A scalar answer is checked as the one value it is and a multi-select answer as its
  values. For the rules (Q1, Yes, O1, 5), (Q2, X, O1, 2), (Q2, Y, O2, 3) and the answers
  Q1 = Yes, Q2 = [X, Y] the score table is O1: 7, O2: 3; both pass the cutoff 3; the
  ranking is O1, O2, also after the join with the catalogue; and the relevance badges,
  on the results page as in the e-mail, show 100 for O1 and 43 for O2.
\<close>

theorem scoring_scenario:
  "answersToCheck (Scalar v) = [v] \<and> answersToCheck (Multi vs) = vs
   \<and> useCaseScores scenario_rules scenario_responses = [(''O1'', 7), (''O2'', 3)]
   \<and> sortedEntries scenario_rules scenario_responses = [(''O1'', 7), (''O2'', 3)]
   \<and> map (\<lambda>uc. (uc_id uc, score uc))
         (clientSideProcessing scenario_use_cases scenario_rules scenario_responses) =
       [(''O1'', 7), (''O2'', 3)]
   \<and> map (\<lambda>uc. (uc_id uc, RelevanceBadge (score uc)
                 (maxScore (clientSideProcessing scenario_use_cases scenario_rules scenario_responses))))
         (clientSideProcessing scenario_use_cases scenario_rules scenario_responses) =
       [(''O1'', 100), (''O2'', 43)]
   \<and> map (\<lambda>uc. (uc_id uc, relevanceBadgeHtml (score uc)
                 (emailMaxScore (clientSideProcessing scenario_use_cases scenario_rules scenario_responses))))
         (clientSideProcessing scenario_use_cases scenario_rules scenario_responses) =
       [(''O1'', 100), (''O2'', 43)]"
proof -
  note scores = scenario_ranked(1) and entries = scenario_ranked(2) and ucs = scenario_ranked(3)
  have "RelevanceBadge 7 7 = 100" "RelevanceBadge 3 7 = 43"
    by (simp_all add: RelevanceBadge_def fl_eval)
  moreover have "relevanceBadgeHtml 7 7 = 100" "relevanceBadgeHtml 3 7 = 43"
    by (simp_all add: relevanceBadgeHtml_def fl_eval)
  ultimately show ?thesis
    by (simp add: scores entries ucs answersToCheck_def maxScore_def emailMaxScore_def)
qed



lemma pending_pairs:
  "pending wt table responses = concat (map (hits wt table) (answer_pairs responses))"
  by (induction responses) (simp_all add: pending_def answer_pairs_def hits_def map_concat comp_def)

lemma mset_concat_map_cong:
  "mset ps = mset qs \<Longrightarrow> mset (concat (map g ps)) = mset (concat (map g qs))"
proof -
  assume "mset ps = mset qs"
  then have "image_mset (\<lambda>p. mset (g p)) (mset ps) = image_mset (\<lambda>p. mset (g p)) (mset qs)"
    by simp
  then have "sum_mset (image_mset (\<lambda>p. mset (g p)) (mset ps)) = sum_mset (image_mset (\<lambda>p. mset (g p)) (mset qs))"
    by simp
  moreover have "mset (concat (map g xs)) = sum_mset (image_mset (\<lambda>p. mset (g p)) (mset xs))" for xs
    by (induction xs) auto
  ultimately show ?thesis
    by simp
qed

lemma total_for_mset: "total_for k es = sum_mset (image_mset snd (filter_mset (\<lambda>e. fst e = k) (mset es)))"
  by (induction es) (auto simp: total_for_def)

lemma accumulate_mset:
  assumes "mset (answer_pairs responses1) = mset (answer_pairs responses2)"
  shows "map_of (accumulate wt table responses1) = map_of (accumulate wt table responses2)"
proof
  fix k
  have m: "mset (pending wt table responses1) = mset (pending wt table responses2)"
    unfolding pending_pairs using assms by (rule mset_concat_map_cong)
  then have "set (pending wt table responses1) = set (pending wt table responses2)"
    by (rule mset_eq_setD)
  moreover have "total_for k (pending wt table responses1) = total_for k (pending wt table responses2)"
    by (simp add: total_for_mset m)
  ultimately show "map_of (accumulate wt table responses1) k = map_of (accumulate wt table responses2) k"
    by (simp add: map_of_accumulate)
qed

section \<open>Independence of the order of the answers\<close>

text \<open>
  C8. Two sequences of responses that expand to the same (question, value) pairs, each
  pair as often in the one as in the other, give the same score map, whatever weight a
  row contributes (so for the weighted engine and for the unweighted one), and the same
  set of ranked entries: the scores depend on which pairs were recorded and how often,
  not on their order. Only the order of the keys of the score table, and with it the
  order among equal scores, follows the order of the answers.
\<close>

theorem score_order_independent:
  assumes "mset (answer_pairs responses1) = mset (answer_pairs responses2)"
  shows "map_of (accumulate wt table responses1) = map_of (accumulate wt table responses2)
     \<and> map_of (useCaseScores table responses1) = map_of (useCaseScores table responses2)
     \<and> set (sortedEntries table responses1) = set (sortedEntries table responses2)"
proof -
  from assms
  have acc: "map_of (accumulate wt table responses1) = map_of (accumulate wt table responses2)" for wt
    by (rule accumulate_mset)
  have "(k, s) \<in> set (accumulate weight_or_1 table responses1) \<longleftrightarrow>
        (k, s) \<in> set (accumulate weight_or_1 table responses2)" for k s
    using acc [of weight_or_1] map_of_accumulate [of weight_or_1 table _ k]
    by (metis entry_accumulate option.distinct(1) option.inject)
  then have "set (accumulate weight_or_1 table responses1) = set (accumulate weight_or_1 table responses2)"
    by auto
  then have "set (sortedEntries table responses1) = set (sortedEntries table responses2)"
    by (simp add: sortedEntries_def useCaseScores_def set_cutoff_and_sort)
  with acc show ?thesis
    by (simp add: useCaseScores_def)
qed

theorem score_order_independent_witness:
  "mset (answer_pairs scenario_responses) = mset (answer_pairs scenario_responses_reordered)
   \<and> answer_pairs scenario_responses = [(''Q1'', ''Yes''), (''Q2'', ''X''), (''Q2'', ''Y'')]
   \<and> answer_pairs scenario_responses_reordered = [(''Q2'', ''Y''), (''Q2'', ''X''), (''Q1'', ''Yes'')]
   \<and> map_of (useCaseScores scenario_rules scenario_responses) =
       map_of (useCaseScores scenario_rules scenario_responses_reordered)
   \<and> useCaseScores scenario_rules scenario_responses = [(''O1'', 7), (''O2'', 3)]
   \<and> useCaseScores scenario_rules scenario_responses_reordered = [(''O2'', 3), (''O1'', 7)]"
proof -
  have p1: "answer_pairs scenario_responses = [(''Q1'', ''Yes''), (''Q2'', ''X''), (''Q2'', ''Y'')]"
    and p2: "answer_pairs scenario_responses_reordered =
        [(''Q2'', ''Y''), (''Q2'', ''X''), (''Q1'', ''Yes'')]"
    by (simp_all add: answer_pairs_def answersToCheck_def scenario_responses_def
        scenario_responses_reordered_def)
  have m: "mset (answer_pairs scenario_responses) = mset (answer_pairs scenario_responses_reordered)"
    unfolding p1 p2 by (simp add: add_mset_commute)
  have "useCaseScores scenario_rules scenario_responses = [(''O1'', 7), (''O2'', 3)]"
    and "useCaseScores scenario_rules scenario_responses_reordered = [(''O2'', 3), (''O1'', 7)]"
    by (simp_all add: useCaseScores_def accumulate_def matches_def answersToCheck_def
        scenario_rules_def scenario_responses_def scenario_responses_reordered_def weight_or_1_def)
  with m p1 p2 score_order_independent [OF m, of weight_or_1 scenario_rules] show ?thesis
    by simp
qed

theorem repeated_pair_counterexample:
  "set (answer_pairs once_responses) = set (answer_pairs twice_responses)
   \<and> useCaseScores repeated_rules once_responses = [(''O1'', 2)]
   \<and> useCaseScores repeated_rules twice_responses = [(''O1'', 4)]
   \<and> sortedEntries repeated_rules once_responses = []
   \<and> sortedEntries repeated_rules twice_responses = [(''O1'', 4)]"
proof -
  have "set (answer_pairs once_responses) = set (answer_pairs twice_responses)"
    by (simp add: answer_pairs_def answersToCheck_def once_responses_def twice_responses_def)
  moreover have 1: "useCaseScores repeated_rules once_responses = [(''O1'', 2)]"
    and 2: "useCaseScores repeated_rules twice_responses = [(''O1'', 4)]"
    by (simp_all add: useCaseScores_def accumulate_def matches_def answersToCheck_def
        repeated_rules_def once_responses_def twice_responses_def weight_or_1_def)
  moreover have "sortedEntries repeated_rules once_responses = []"
    and "sortedEntries repeated_rules twice_responses = [(''O1'', 4)]"
    by (simp_all add: sortedEntries_def cutoff_and_sort_def MIN_SCORE_def js_sort_def 1 2)
  ultimately show ?thesis
    by simp
qed

section \<open>Monotonicity in the rules\<close>

lemma total_for_concat: "total_for k (concat xss) = sum_list (map (total_for k) xss)"
  by (induction xss) (simp_all add: total_for_def)

lemma total_for_hits_insert:
  "total_for k (hits wt (xs @ r # ys) p) =
     total_for k (hits wt (xs @ ys) p) +
     (if decision_matrix.question_id r = fst p \<and> triggering_answer r = snd p \<and> use_case_id r = k
      then wt r else 0)"
  by (simp add: total_for_def hits_def matches_def)

lemma sum_list_int_nonneg: "(\<And>x. x \<in> set xs \<Longrightarrow> 0 \<le> f x) \<Longrightarrow> (0::int) \<le> sum_list (map f xs)"
  by (induction xs) auto

lemma sum_list_int_member:
  "(\<And>x. x \<in> set xs \<Longrightarrow> 0 \<le> f x) \<Longrightarrow> p \<in> set xs \<Longrightarrow> f p \<le> (sum_list (map f xs) :: int)"
proof (induction xs)
  case Nil
  then show ?case by simp
next
  case (Cons x xs)
  have rest: "0 \<le> sum_list (map f xs)"
    by (rule sum_list_int_nonneg) (simp add: Cons.prems)
  show ?case
  proof (cases "p = x")
    case True
    with rest show ?thesis by simp
  next
    case False
    with Cons have "f p \<le> sum_list (map f xs)" by simp
    moreover have "0 \<le> f x" by (simp add: Cons.prems)
    ultimately show ?thesis by simp
  qed
qed

lemma total_pending_insert:
  "total_for k (pending wt (xs @ r # ys) responses) =
     total_for k (pending wt (xs @ ys) responses) +
     sum_list (map (\<lambda>p. if decision_matrix.question_id r = fst p \<and> triggering_answer r = snd p \<and> use_case_id r = k
                          then wt r else 0) (answer_pairs responses))"
  by (simp add: pending_pairs total_for_concat comp_def total_for_hits_insert sum_list_addf)

text \<open>
  C9. Adding to the decision matrix, at any place, one rule that matches a recorded
  (question, value) pair and whose weight is not negative (rule weights are at least 1)
  lowers the score of no use case, and raises the score of the rule's own use case. A
  use case that is not in the score table counts as 0.
\<close>

theorem matching_rule_monotone:
  assumes "0 \<le> weight r"
    and "(decision_matrix.question_id r, triggering_answer r) \<in> set (answer_pairs responses)"
  shows "score_of (useCaseScores (xs @ ys) responses) k \<le> score_of (useCaseScores (xs @ r # ys) responses) k
     \<and> score_of (useCaseScores (xs @ ys) responses) (use_case_id r)
           < score_of (useCaseScores (xs @ r # ys) responses) (use_case_id r)"
proof -
  let ?d = "\<lambda>k p. if decision_matrix.question_id r = fst p \<and> triggering_answer r = snd p \<and> use_case_id r = k
                   then weight_or_1 r else 0"
  from assms(1) have w: "1 \<le> weight_or_1 r"
    by (simp add: weight_or_1_def)
  then have nonneg: "0 \<le> ?d k p" for k p
    by simp
  have "0 \<le> sum_list (map (?d k) (answer_pairs responses))"
    by (rule sum_list_int_nonneg) (rule nonneg)
  then have 1: "score_of (useCaseScores (xs @ ys) responses) k \<le> score_of (useCaseScores (xs @ r # ys) responses) k"
    by (simp add: useCaseScores_def score_of_accumulate total_pending_insert)
  have "?d (use_case_id r) (decision_matrix.question_id r, triggering_answer r)
          \<le> sum_list (map (?d (use_case_id r)) (answer_pairs responses))"
    using nonneg assms(2) by (rule sum_list_int_member)
  with w have "1 \<le> sum_list (map (?d (use_case_id r)) (answer_pairs responses))"
    by simp
  then have 2: "score_of (useCaseScores (xs @ ys) responses) (use_case_id r)
           < score_of (useCaseScores (xs @ r # ys) responses) (use_case_id r)"
    by (simp add: useCaseScores_def score_of_accumulate total_pending_insert)
  from 1 2 show ?thesis ..
qed


theorem matching_rule_monotone_witness:
  "0 \<le> weight extra_rule
   \<and> (decision_matrix.question_id extra_rule, triggering_answer extra_rule)
         \<in> set (answer_pairs scenario_responses)
   \<and> score_of (useCaseScores scenario_rules scenario_responses) ''O2''
         \<le> score_of (useCaseScores (extra_rule # scenario_rules) scenario_responses) ''O2''
   \<and> score_of (useCaseScores scenario_rules scenario_responses) (use_case_id extra_rule)
         < score_of (useCaseScores (extra_rule # scenario_rules) scenario_responses) (use_case_id extra_rule)
   \<and> useCaseScores (extra_rule # scenario_rules) scenario_responses = [(''O1'', 11), (''O2'', 3)]"
proof -
  have 1: "0 \<le> weight extra_rule"
    by (simp add: extra_rule_def)
  have 2: "(decision_matrix.question_id extra_rule, triggering_answer extra_rule)
         \<in> set (answer_pairs scenario_responses)"
    by (simp add: extra_rule_def answer_pairs_def answersToCheck_def scenario_responses_def)
  have "useCaseScores (extra_rule # scenario_rules) scenario_responses = [(''O1'', 11), (''O2'', 3)]"
    by (simp add: useCaseScores_def accumulate_def matches_def answersToCheck_def extra_rule_def
        scenario_rules_def scenario_responses_def weight_or_1_def)
  with 1 2 matching_rule_monotone [OF 1 2, of "[]" scenario_rules "''O2''"]
  show ?thesis
    by simp
qed

section \<open>Visible questions\<close>

lemma visible_unconditional:
  "falsy (condition_question_id (question fq)) \<or> falsy (condition_answer (question fq)) \<Longrightarrow> visible answers fq"
  by (simp add: visible_def Let_def)

lemma visible_conditional:
  assumes "condition_question_id (question fq) = Some c" and "condition_answer (question fq) = Some required"
    and "c \<noteq> []" and "required \<noteq> []"
  shows "visible answers fq \<longleftrightarrow>
     (\<exists>a. answers c = Some a \<and> (a = Scalar required \<or> (\<exists>values. a = Multi values \<and> required \<in> set values)))"
  using assms by (auto simp: visible_def Let_def falsy_def split: option.splits answer_value.splits)

lemma visible_iff:
  "visible answers fq \<longleftrightarrow>
     condition_question_id (question fq) = None \<or> condition_question_id (question fq) = Some []
     \<or> condition_answer (question fq) = None \<or> condition_answer (question fq) = Some []
     \<or> (\<exists>c required a.
          condition_question_id (question fq) = Some c \<and> condition_answer (question fq) = Some required
          \<and> answers c = Some a
          \<and> (a = Scalar required \<or> (\<exists>values. a = Multi values \<and> required \<in> set values)))"
proof (cases "falsy (condition_question_id (question fq)) \<or> falsy (condition_answer (question fq))")
  case True
  then have "visible answers fq"
    by (rule visible_unconditional)
  moreover from True
  have "condition_question_id (question fq) = None \<or> condition_question_id (question fq) = Some []
     \<or> condition_answer (question fq) = None \<or> condition_answer (question fq) = Some []"
    by (auto simp: falsy_def split: option.splits)
  ultimately show ?thesis
    by blast
next
  case False
  then obtain c required where c: "condition_question_id (question fq) = Some c" "c \<noteq> []"
    and r: "condition_answer (question fq) = Some required" "required \<noteq> []"
    by (auto simp: falsy_def split: option.splits)
  from visible_conditional [OF c(1) r(1) c(2) r(2), of answers] c r show ?thesis
    by simp
qed

text \<open>
  C2. A question of the catalogue is among the visible questions exactly when its
  controlling-question identifier or its required value is null or the empty string (it
  then has no condition), or when the answers hold a value for the controlling question
  that is the required value, or that is a set of values containing it. The visible
  questions stand in the order of the catalogue. For Q1 (yes/no, no condition) and Q2
  (shown when Q1 is Yes), the answer Q1 = No gives [Q1] and the answer Q1 = Yes gives
  [Q1, Q2].
\<close>

theorem visibleQuestions_condition:
  "(\<forall>fq. fq \<in> set (visibleQuestions flatQuestions answers) \<longleftrightarrow>
      fq \<in> set flatQuestions \<and>
      (condition_question_id (question fq) = None \<or> condition_question_id (question fq) = Some []
       \<or> condition_answer (question fq) = None \<or> condition_answer (question fq) = Some []
       \<or> (\<exists>c required a.
            condition_question_id (question fq) = Some c \<and> condition_answer (question fq) = Some required
            \<and> answers c = Some a
            \<and> (a = Scalar required \<or> (\<exists>values. a = Multi values \<and> required \<in> set values)))))
   \<and> visibleQuestions flatQuestions answers =
       filter (\<lambda>fq. fq \<in> set (visibleQuestions flatQuestions answers)) flatQuestions
   \<and> visibleQuestions [flat_Q1, flat_Q2] [''Q1'' \<mapsto> Scalar ''No''] = [flat_Q1]
   \<and> visibleQuestions [flat_Q1, flat_Q2] [''Q1'' \<mapsto> Scalar ''Yes''] = [flat_Q1, flat_Q2]"
proof -
  have 1: "\<forall>fq. fq \<in> set (visibleQuestions flatQuestions answers) \<longleftrightarrow>
      fq \<in> set flatQuestions \<and>
      (condition_question_id (question fq) = None \<or> condition_question_id (question fq) = Some []
       \<or> condition_answer (question fq) = None \<or> condition_answer (question fq) = Some []
       \<or> (\<exists>c required a.
            condition_question_id (question fq) = Some c \<and> condition_answer (question fq) = Some required
            \<and> answers c = Some a
            \<and> (a = Scalar required \<or> (\<exists>values. a = Multi values \<and> required \<in> set values))))"
    unfolding visibleQuestions_def set_filter mem_Collect_eq visible_iff [of answers] by blast
  have 2: "visibleQuestions flatQuestions answers =
       filter (\<lambda>fq. fq \<in> set (visibleQuestions flatQuestions answers)) flatQuestions"
    by (auto simp: visibleQuestions_def intro: filter_cong)
  have 3: "visibleQuestions [flat_Q1, flat_Q2] [''Q1'' \<mapsto> Scalar ''No''] = [flat_Q1]"
    by (simp add: visibleQuestions_def visible_def falsy_def flat_Q1_def flat_Q2_def)
  have 4: "visibleQuestions [flat_Q1, flat_Q2] [''Q1'' \<mapsto> Scalar ''Yes''] = [flat_Q1, flat_Q2]"
    by (simp add: visibleQuestions_def visible_def falsy_def flat_Q1_def flat_Q2_def)
  show ?thesis
    by (rule conjI [OF 1 conjI [OF 2 conjI [OF 3 4]]])
qed

theorem visibleQuestions_condition_witness:
  "condition_question_id (question flat_Q2) = Some ''Q1''
   \<and> condition_answer (question flat_Q2) = Some ''Yes''
   \<and> flat_Q2 \<in> set (visibleQuestions [flat_Q1, flat_Q2] [''Q1'' \<mapsto> Multi [''No'', ''Yes'']])
   \<and> flat_Q2 \<notin> set (visibleQuestions [flat_Q1, flat_Q2] [''Q2'' \<mapsto> Scalar ''Yes''])
   \<and> flat_Q1 \<in> set (visibleQuestions [flat_Q1, flat_Q2] Map.empty)
   \<and> condition_question_id (question flat_Q4) = None
   \<and> condition_answer (question flat_Q4) = Some ''Yes''
   \<and> flat_Q4 \<in> set (visibleQuestions [flat_Q1, flat_Q4] Map.empty)"
proof -
  have c: "condition_question_id (question flat_Q2) = Some ''Q1''"
    "condition_answer (question flat_Q2) = Some ''Yes''"
    "condition_question_id (question flat_Q1) = None" "condition_answer (question flat_Q1) = None"
    "condition_question_id (question flat_Q4) = None" "condition_answer (question flat_Q4) = Some ''Yes''"
    by (simp_all add: flat_Q2_def flat_Q1_def flat_Q4_def)
  have "flat_Q2 \<in> set (visibleQuestions [flat_Q1, flat_Q2] [''Q1'' \<mapsto> Multi [''No'', ''Yes'']])"
    using visibleQuestions_condition [of "[flat_Q1, flat_Q2]" "[''Q1'' \<mapsto> Multi [''No'', ''Yes'']]"] c
    by simp
  moreover have "flat_Q2 \<notin> set (visibleQuestions [flat_Q1, flat_Q2] [''Q2'' \<mapsto> Scalar ''Yes''])"
    using visibleQuestions_condition [of "[flat_Q1, flat_Q2]" "[''Q2'' \<mapsto> Scalar ''Yes'']"] c
    by simp
  moreover have "flat_Q1 \<in> set (visibleQuestions [flat_Q1, flat_Q2] Map.empty)"
    using visibleQuestions_condition [of "[flat_Q1, flat_Q2]" Map.empty] c
    by simp
  moreover have "flat_Q4 \<in> set (visibleQuestions [flat_Q1, flat_Q4] Map.empty)"
    using visibleQuestions_condition [of "[flat_Q1, flat_Q4]" Map.empty] c
    by simp
  ultimately show ?thesis
    using c by simp
qed

theorem empty_required_value_counterexample:
  "condition_question_id (question flat_Q3) = Some ''Q1''
   \<and> condition_answer (question flat_Q3) = Some []
   \<and> (Map.empty :: string \<rightharpoonup> answer_value) ''Q1'' = None
   \<and> flat_Q3 \<in> set (visibleQuestions [flat_Q1, flat_Q2, flat_Q3] Map.empty)"
  by (simp add: visibleQuestions_def visible_def falsy_def flat_Q3_def)

text \<open>
  C10. A question that names a controlling question but whose required value is null or
  the empty string is always among the visible questions, whatever the answers are.
\<close>

theorem empty_required_value_is_no_condition:
  assumes "fq \<in> set flatQuestions"
    and "condition_question_id (question fq) = Some c"
    and "condition_answer (question fq) = None \<or> condition_answer (question fq) = Some []"
  shows "fq \<in> set (visibleQuestions flatQuestions answers)"
  using assms by (auto simp: visibleQuestions_def falsy_def intro!: visible_unconditional)

theorem empty_required_value_is_no_condition_witness:
  "flat_Q3 \<in> set [flat_Q1, flat_Q2, flat_Q3]
   \<and> condition_question_id (question flat_Q3) = Some ''Q1''
   \<and> condition_answer (question flat_Q3) = Some []
   \<and> flat_Q3 \<in> set (visibleQuestions [flat_Q1, flat_Q2, flat_Q3] Map.empty)
   \<and> flat_Q3 \<in> set (visibleQuestions [flat_Q1, flat_Q2, flat_Q3] [''Q1'' \<mapsto> Scalar ''No''])"
proof -
  have 1: "flat_Q3 \<in> set [flat_Q1, flat_Q2, flat_Q3]"
    by simp
  have 2: "condition_question_id (question flat_Q3) = Some ''Q1''"
    by (simp add: flat_Q3_def)
  have 3: "condition_answer (question flat_Q3) = Some []"
    by (simp add: flat_Q3_def)
  from 3 have h3: "condition_answer (question flat_Q3) = None \<or> condition_answer (question flat_Q3) = Some []"
    by simp
  from empty_required_value_is_no_condition [OF 1 2 h3, of Map.empty]
    empty_required_value_is_no_condition [OF 1 2 h3, of "[''Q1'' \<mapsto> Scalar ''No'']"] 1 2 3
  show ?thesis
    by simp
qed


section \<open>The roadmap composer: grouping\<close>

lemma set_map_filter: "set (List.map_filter f xs) = {y. \<exists>x \<in> set xs. f x = Some y}"
  by (induction xs) (auto simp: List.map_filter_simps split: option.splits)

lemma keys_push_own:
  "map fst (push_own groups' k uc) = (if k \<in> fst ` set groups' then map fst groups' else map fst groups' @ [k])"
  by (induction groups' k uc rule: push_own.induct) auto

lemma map_of_push_own:
  "map_of (push_own groups' k uc) = (map_of groups')(k \<mapsto> members groups' k @ [uc])"
  by (induction groups' k uc rule: push_own.induct) (auto simp: members_def fun_eq_iff)

lemma members_push_own:
  "members (push_own groups' k uc) k' = members groups' k' @ (if k' = k then [uc] else [])"
  by (simp add: members_def map_of_push_own)

lemma members_fold:
  "members (fold (\<lambda>uc groups'. push_own groups' (f uc) uc) ucs groups') k =
     members groups' k @ filter (\<lambda>uc. f uc = k) ucs"
  by (induction ucs arbitrary: groups') (auto simp: members_push_own)

lemma keys_push_own_set: "fst ` set (push_own groups' k uc) = insert k (fst ` set groups')"
proof -
  have "set (map fst (push_own groups' k uc)) = insert k (set (map fst groups'))"
    unfolding keys_push_own by auto
  then show ?thesis
    by simp
qed

lemma group_keys_fold:
  "map fst (fold (\<lambda>uc groups'. push_own groups' (f uc) uc) ucs groups') =
     map fst groups' @ filter (\<lambda>k. k \<notin> fst ` set groups') (first_occurrences (map f ucs))"
proof (induction ucs arbitrary: groups')
  case Nil
  show ?case by simp
next
  case (Cons uc ucs)
  let ?g = "push_own groups' (f uc) uc"
  have IH: "map fst (fold (\<lambda>uc groups'. push_own groups' (f uc) uc) ucs ?g) =
     map fst ?g @ filter (\<lambda>k. k \<notin> fst ` set ?g) (first_occurrences (map f ucs))"
    by (rule Cons.IH)
  have keys: "fst ` set ?g = insert (f uc) (fst ` set groups')"
    by (rule keys_push_own_set)
  show ?case
  proof (cases "f uc \<in> fst ` set groups'")
    case True
    then have "map fst ?g = map fst groups'"
      by (simp add: keys_push_own)
    moreover have "filter (\<lambda>k. k \<notin> fst ` set groups') (filter (\<lambda>y. y \<noteq> f uc) (first_occurrences (map f ucs)))
         = filter (\<lambda>k. k \<notin> fst ` set groups') (first_occurrences (map f ucs))"
      using True by (auto intro: filter_cong)
    ultimately show ?thesis
      using True IH keys by (simp add: insert_absorb)
  next
    case False
    then have "map fst ?g = map fst groups' @ [f uc]"
      by (simp add: keys_push_own)
    moreover have "filter (\<lambda>k. k \<notin> insert (f uc) (fst ` set groups')) (first_occurrences (map f ucs))
       = filter (\<lambda>k. k \<notin> fst ` set groups') (filter (\<lambda>y. y \<noteq> f uc) (first_occurrences (map f ucs)))"
      by (auto intro: filter_cong)
    ultimately show ?thesis
      using False IH keys by simp
  qed
qed

lemma keys_own_groups: "map fst (own_groups f ucs) = first_occurrences (map f ucs)"
  by (simp add: own_groups_def group_keys_fold)

lemma members_own_groups: "members (own_groups f ucs) k = filter (\<lambda>uc. f uc = k) ucs"
  by (simp add: own_groups_def members_fold) (simp add: members_def)

lemma alist_by_keys:
  "distinct (map fst ps) \<Longrightarrow> ps = map (\<lambda>k. (k, the (map_of ps k))) (map fst ps)"
proof (induction ps)
  case Nil
  show ?case by simp
next
  case (Cons p ps)
  then have "ps = map (\<lambda>k. (k, the (map_of ps k))) (map fst ps)"
    by simp
  moreover have "map (\<lambda>k. (k, the (map_of (p # ps) k))) (map fst ps) = map (\<lambda>k. (k, the (map_of ps k))) (map fst ps)"
    using Cons.prems by (auto simp: image_iff)
  ultimately show ?case
    by (cases p) simp
qed

lemma own_groups_closed:
  "own_groups f ucs = map (\<lambda>k. (k, filter (\<lambda>uc. f uc = k) ucs)) (first_occurrences (map f ucs))"
proof -
  have d: "distinct (map fst (own_groups f ucs))"
    by (simp add: keys_own_groups first_occurrences_distinct)
  have "the (map_of (own_groups f ucs) k) = filter (\<lambda>uc. f uc = k) ucs"
    if "k \<in> set (first_occurrences (map f ucs))" for k
  proof -
    from that have "k \<in> fst ` set (own_groups f ucs)"
      using keys_own_groups [of f ucs] by (metis set_map)
    then obtain v where "map_of (own_groups f ucs) k = Some v"
      by (cases "map_of (own_groups f ucs) k") (auto simp: map_of_eq_None_iff)
    then show ?thesis
      using members_own_groups [of f ucs k] by (simp add: members_def)
  qed
  then have "map (\<lambda>k. (k, the (map_of (own_groups f ucs) k))) (first_occurrences (map f ucs)) =
        map (\<lambda>k. (k, filter (\<lambda>uc. f uc = k) ucs)) (first_occurrences (map f ucs))"
    by simp
  with alist_by_keys [OF d] show ?thesis
    by (simp add: keys_own_groups)
qed

lemma sorted_insort_by:
  assumes total: "\<And>x y. le x y \<or> le y x" and trans: "\<And>x y z. le x y \<Longrightarrow> le y z \<Longrightarrow> le x z"
  shows "sorted_wrt le ys \<Longrightarrow> sorted_wrt le (insort_by le x ys)"
proof (induction ys)
  case Nil
  show ?case by simp
next
  case (Cons y ys)
  show ?case
  proof (cases "le x y")
    case True
    with Cons.prems trans show ?thesis
      by auto
  next
    case False
    with total have "le y x"
      by blast
    with False Cons show ?thesis
      by (auto simp: set_insort_by)
  qed
qed

lemma sorted_js_sort:
  assumes "\<And>x y. le x y \<or> le y x" and "\<And>x y z. le x y \<Longrightarrow> le y z \<Longrightarrow> le x z"
  shows "sorted_wrt le (js_sort le xs)"
proof (induction xs)
  case Nil
  show ?case by (simp add: js_sort_def)
next
  case (Cons x xs)
  then have "sorted_wrt le (insort_by le x (js_sort le xs))"
    using assms by (intro sorted_insort_by) auto
  then show ?case
    by (simp add: js_sort_def)
qed

lemma Math_max_ge: "x \<in> set xs \<Longrightarrow> Some x \<le> Math_max xs"
  by (induction xs) (auto simp: Math_max_def le_max_iff_disj)


lemma sorted_desc_filter:
  "sorted_wrt (\<lambda>a b. score b \<le> score a) ucs \<Longrightarrow> sorted_wrt (\<lambda>a b. score b \<le> score a) (filter P ucs)"
  by (rule sorted_wrt_filter)

lemma Math_max_le: "(\<And>x. x \<in> set xs \<Longrightarrow> x \<le> b) \<Longrightarrow> Math_max xs \<le> Some b"
  by (induction xs) (auto simp: Math_max_def)

lemma own_groups_Cons:
  "own_groups f (uc # ucs) =
     (f uc, uc # filter (\<lambda>u. f u = f uc) ucs) # filter (\<lambda>g. fst g \<noteq> f uc) (own_groups f ucs)"
proof -
  have "map (\<lambda>k. (k, filter (\<lambda>u. f u = k) (uc # ucs))) (filter (\<lambda>y. y \<noteq> f uc) ks) =
        filter (\<lambda>g. fst g \<noteq> f uc) (map (\<lambda>k. (k, filter (\<lambda>u. f u = k) ucs)) ks)" for ks
    by (induction ks) auto
  then show ?thesis
    by (simp add: own_groups_closed)
qed

lemma own_groups_sorted:
  assumes "sorted_wrt (\<lambda>a b. score b \<le> score a) ucs"
  shows "sorted_wrt (\<lambda>g h. group_max h \<le> group_max g) (own_groups f ucs)"
  using assms
proof (induction ucs)
  case Nil
  show ?case by (simp add: own_groups_def)
next
  case (Cons uc ucs)
  then have IH: "sorted_wrt (\<lambda>g h. group_max h \<le> group_max g) (own_groups f ucs)"
    by simp
  have top: "score u \<le> score uc" if "u \<in> set ucs" for u
    using Cons.prems that by simp
  have head: "Some (score uc) \<le> group_max (f uc, uc # filter (\<lambda>u. f u = f uc) ucs)"
    by (simp add: group_max_def Math_max_ge)
  have "group_max h \<le> Some (score uc)" if "h \<in> set (own_groups f ucs)" for h
  proof -
    from that have "snd h = filter (\<lambda>u. f u = fst h) ucs"
      by (auto simp: own_groups_closed)
    then have "set (snd h) \<subseteq> set ucs"
      by (metis filter_is_subset)
    then show ?thesis
      unfolding group_max_def by (intro Math_max_le) (auto dest: top)
  qed
  with head have "group_max h \<le> group_max (f uc, uc # filter (\<lambda>u. f u = f uc) ucs)"
    if "h \<in> set (own_groups f ucs)" for h
    using that by (meson order_trans)
  moreover have "sorted_wrt (\<lambda>g h. group_max h \<le> group_max g) (filter (\<lambda>g. fst g \<noteq> f uc) (own_groups f ucs))"
    using IH by (rule sorted_wrt_filter)
  ultimately show ?case
    by (simp add: own_groups_Cons)
qed


lemma grouped_own_groups: "grouped_by_sub_category ucs (own_groups sub_category_or_Other ucs)"
proof -
  have "distinct (map fst (own_groups sub_category_or_Other ucs))"
    by (simp add: keys_own_groups first_occurrences_distinct)
  moreover have "g \<noteq> [] \<and> g = filter (\<lambda>uc. sub_category_or_Other uc = k) ucs"
    if "(k, g) \<in> set (own_groups sub_category_or_Other ucs)" for k g
  proof -
    from that have k: "k \<in> sub_category_or_Other ` set ucs"
      and g: "g = filter (\<lambda>uc. sub_category_or_Other uc = k) ucs"
      by (auto simp: own_groups_closed first_occurrences_set)
    from k have "filter (\<lambda>uc. sub_category_or_Other uc = k) ucs \<noteq> []"
      by (auto simp: filter_empty_conv)
    with g show ?thesis
      by simp
  qed
  moreover have "sub_category_or_Other uc \<in> fst ` set (own_groups sub_category_or_Other ucs)"
    if "uc \<in> set ucs" for uc
  proof -
    have "fst ` set (own_groups sub_category_or_Other ucs) = set (map fst (own_groups sub_category_or_Other ucs))"
      by simp
    also have "\<dots> = sub_category_or_Other ` set ucs"
      by (simp only: keys_own_groups first_occurrences_set set_map)
    finally show ?thesis
      using that by simp
  qed
  ultimately show ?thesis
    unfolding grouped_by_sub_category_def by blast
qed

lemma grouped_perm:
  "grouped_by_sub_category ucs gs \<Longrightarrow> set gs' = set gs \<Longrightarrow> distinct (map fst gs') \<Longrightarrow>
   grouped_by_sub_category ucs gs'"
  unfolding grouped_by_sub_category_def by simp

lemma mset_insort_by: "mset (insort_by le x ys) = add_mset x (mset ys)"
  by (induction ys) auto

lemma mset_js_sort: "mset (js_sort le xs) = mset xs"
  by (induction xs) (auto simp: js_sort_def mset_insort_by)

lemma distinct_keys_js_sort: "distinct (map fst (js_sort le xs)) = distinct (map fst xs)"
  by (rule mset_eq_imp_distinct_iff) (simp add: mset_js_sort)

lemma ordered_by_max_scoreI:
  assumes sorted: "sorted_wrt (\<lambda>g h. group_max h \<le> group_max g) gs"
  shows "ordered_by_max_score gs"
proof (cases gs)
  case Nil
  then show ?thesis by (simp add: ordered_by_max_score_def)
next
  case (Cons g rest)
  have "Some (score uc) \<le> group_max g" if "h \<in> set gs" "uc \<in> set (snd h)" for h uc
  proof -
    from that(2) have "Some (score uc) \<le> group_max h"
      by (simp add: group_max_def Math_max_ge)
    moreover from that(1) sorted Cons have "group_max h \<le> group_max g"
      by auto
    ultimately show ?thesis
      by (rule order_trans)
  qed
  with sorted Cons show ?thesis
    by (simp add: ordered_by_max_score_def)
qed

lemma sorted_groups_js_sort:
  "sorted_wrt (\<lambda>g h. group_max h \<le> group_max g)
     (js_sort (\<lambda>(_, a) (_, b). Math_max (map score b) \<le> Math_max (map score a)) gs)"
proof -
  have eq: "(\<lambda>(_, a) (_, b). Math_max (map score b) \<le> Math_max (map score a)) =
            (\<lambda>g h :: string \<times> UseCase list. group_max h \<le> group_max g)"
    by (auto simp: group_max_def fun_eq_iff)
  show ?thesis
    unfolding eq by (rule sorted_js_sort) auto
qed

lemma map_of_keyed:
  "map_of (map (\<lambda>k. (k, g k)) ks) k = (if k \<in> set ks then Some (g k) else None)"
  by (induction ks) auto

lemma map_of_own_groups:
  "map_of (own_groups f ucs) k = (if k \<in> f ` set ucs then Some (filter (\<lambda>uc. f uc = k) ucs) else None)"
  by (simp add: own_groups_closed map_of_keyed first_occurrences_set)

section \<open>The roadmap composer: inherited names and the order of the keys\<close>

text \<open>
  Grouping throws exactly when one of the keys is the name of an inherited property;
  otherwise it is the plain grouping.
\<close>

lemma push_group_eq:
  assumes "fst ` set groups' \<inter> set Object_prototype_names = {}"
  shows "push_group groups' k uc =
     (if k \<in> set Object_prototype_names then Inl TypeError else Inr (push_own groups' k uc))"
proof (cases "map_of groups' k")
  case None
  then show ?thesis
    by (simp add: push_group_def)
next
  case (Some v)
  then have "(k, v) \<in> set groups'"
    by (rule map_of_SomeD)
  then have "k \<in> fst ` set groups'"
    by (metis fst_conv imageI)
  with assms have "k \<notin> set Object_prototype_names"
    by blast
  with Some show ?thesis
    by (simp add: push_group_def)
qed

lemma group_loop_eq:
  assumes "fst ` set groups' \<inter> set Object_prototype_names = {}"
  shows "group_loop f ucs groups' =
     (if \<forall>uc \<in> set ucs. f uc \<notin> set Object_prototype_names
      then Inr (fold (\<lambda>uc g. push_own g (f uc) uc) ucs groups')
      else Inl TypeError)"
  using assms
proof (induction ucs arbitrary: groups')
  case Nil
  show ?case by simp
next
  case (Cons uc ucs)
  show ?case
  proof (cases "f uc \<in> set Object_prototype_names")
    case True
    then show ?thesis
      by (simp add: push_group_eq [OF Cons.prems])
  next
    case False
    with Cons.prems have "fst ` set (push_own groups' (f uc) uc) \<inter> set Object_prototype_names = {}"
      by (simp add: keys_push_own_set)
    from Cons.IH [OF this] False show ?thesis
      by (simp add: push_group_eq [OF Cons.prems])
  qed
qed

lemma group_by_eq:
  "group_by f ucs =
     (if \<forall>uc \<in> set ucs. f uc \<notin> set Object_prototype_names
      then Inr (own_groups f ucs) else Inl TypeError)"
  by (simp add: group_by_def own_groups_def group_loop_eq)

text \<open>\<^verbatim>\<open>Object.entries\<close> permutes the entries, and leaves them alone if no key is an array index.\<close>

lemma mset_Object_entries: "mset (Object_entries obj) = mset obj"
  by (simp add: Object_entries_def multiset_partition [symmetric])

lemma set_Object_entries: "set (Object_entries obj) = set obj"
  by (rule mset_eq_setD) (rule mset_Object_entries)

lemma distinct_keys_Object_entries: "distinct (map fst (Object_entries obj)) = distinct (map fst obj)"
  by (rule mset_eq_imp_distinct_iff) (simp add: mset_Object_entries)

lemma Object_entries_plain:
  assumes "\<forall>e \<in> set obj. \<not> is_array_index (fst e)"
  shows "Object_entries obj = obj"
  using assms by (simp add: Object_entries_def)

lemma map_throwing_Inr:
  assumes "map_throwing f xs = Inr ys" and "\<And>x y. x \<in> set xs \<Longrightarrow> f x = Inr y \<Longrightarrow> y = g x"
  shows "ys = map g xs"
  using assms
proof (induction xs arbitrary: ys)
  case Nil
  then show ?case by simp
next
  case (Cons x xs)
  from Cons.prems(1) obtain y ys' where y: "f x = Inr y"
    and ys': "map_throwing f xs = Inr ys'" and ys: "ys = y # ys'"
    by (auto split: sum.splits)
  from y have "y = g x"
    by (intro Cons.prems(2)) simp_all
  moreover have "ys' = map g xs"
  proof (rule Cons.IH [OF ys'])
    fix x' y'
    assume "x' \<in> set xs" "f x' = Inr y'"
    then show "y' = g x'"
      by (intro Cons.prems(2)) simp_all
  qed
  ultimately show ?case
    using ys by simp
qed

lemma map_throwing_total:
  assumes "\<And>x. x \<in> set xs \<Longrightarrow> f x = Inr (g x)"
  shows "map_throwing f xs = Inr (map g xs)"
  using assms by (induction xs) simp_all

lemma map_throwing_Inl:
  assumes "x \<in> set xs" and "f x = Inl TypeError"
  shows "map_throwing f xs = Inl TypeError"
  using assms
proof (induction xs)
  case Nil
  then show ?case by simp
next
  case (Cons x' xs)
  have e: "e = TypeError" for e :: js_error
    by (cases e) simp
  show ?case
  proof (cases "x = x'")
    case True
    with Cons.prems(2) show ?thesis
      by simp
  next
    case False
    with Cons have "map_throwing f xs = Inl TypeError"
      by simp
    then show ?thesis
      by (simp add: e split: sum.splits)
  qed
qed

lemma map_filter_id_map: "List.map_filter id (map f xs) = List.map_filter f xs"
  by (induction xs) (simp_all add: List.map_filter_simps split: option.splits)

lemma map_fst_map_filter_if:
  "map fst (List.map_filter (\<lambda>k. if P k then Some (k, g k) else None) ks) = filter P ks"
  by (induction ks) (simp_all add: List.map_filter_simps)

section \<open>The roadmap composer: the results page\<close>

lemma compose_phase_eq:
  "compose_phase ucs ph =
     (if \<forall>uc \<in> set (filter (\<lambda>uc. engagement_category uc = Some (key ph)) ucs).
           sub_category_or_Other uc \<notin> set Object_prototype_names
      then Inr \<lparr>phase = ph,
               groups = js_sort (\<lambda>(_, a) (_, b). Math_max (map score b) \<le> Math_max (map score a))
                 (Object_entries (own_groups sub_category_or_Other
                    (filter (\<lambda>uc. engagement_category uc = Some (key ph)) ucs))),
               total = length (filter (\<lambda>uc. engagement_category uc = Some (key ph)) ucs)\<rparr>
      else Inl TypeError)"
  by (simp add: compose_phase_def Let_def group_by_eq)

lemma roadmap_closed:
  assumes "roadmap ucs = Inr ps"
  shows "ps = filter (\<lambda>p. 0 < total p) (map (\<lambda>ph. \<lparr>phase = ph,
               groups = js_sort (\<lambda>(_, a) (_, b). Math_max (map score b) \<le> Math_max (map score a))
                 (Object_entries (own_groups sub_category_or_Other
                    (filter (\<lambda>uc. engagement_category uc = Some (key ph)) ucs))),
               total = length (filter (\<lambda>uc. engagement_category uc = Some (key ph)) ucs)\<rparr>) phases)"
proof -
  from assms obtain qs where qs: "map_throwing (compose_phase ucs) phases = Inr qs"
    and ps: "ps = filter (\<lambda>p. 0 < total p) qs"
    by (auto simp: roadmap_def split: sum.splits)
  have "qs = map (\<lambda>ph. \<lparr>phase = ph,
               groups = js_sort (\<lambda>(_, a) (_, b). Math_max (map score b) \<le> Math_max (map score a))
                 (Object_entries (own_groups sub_category_or_Other
                    (filter (\<lambda>uc. engagement_category uc = Some (key ph)) ucs))),
               total = length (filter (\<lambda>uc. engagement_category uc = Some (key ph)) ucs)\<rparr>) phases"
    using qs by (rule map_throwing_Inr) (simp add: compose_phase_eq split: if_splits)
  with ps show ?thesis
    by simp
qed

lemma roadmap_returns:
  assumes "\<forall>uc \<in> set ucs. sub_category_or_Other uc \<notin> set Object_prototype_names"
  shows "\<exists>ps. roadmap ucs = Inr ps"
proof -
  have "map_throwing (compose_phase ucs) phases = Inr (map (\<lambda>ph. \<lparr>phase = ph,
               groups = js_sort (\<lambda>(_, a) (_, b). Math_max (map score b) \<le> Math_max (map score a))
                 (Object_entries (own_groups sub_category_or_Other
                    (filter (\<lambda>uc. engagement_category uc = Some (key ph)) ucs))),
               total = length (filter (\<lambda>uc. engagement_category uc = Some (key ph)) ucs)\<rparr>) phases)"
    by (rule map_throwing_total) (simp add: compose_phase_eq assms)
  then show ?thesis
    by (simp add: roadmap_def)
qed

lemma roadmap_throws:
  assumes "uc \<in> set ucs" and "engagement_category uc = Some k" and "k \<in> set [''A'', ''B'', ''C'']"
    and "sub_category_or_Other uc \<in> set Object_prototype_names"
  shows "roadmap ucs = Inl TypeError"
proof -
  from assms(3) have "k = ''A'' \<or> k = ''B'' \<or> k = ''C''"
    by simp
  then have "\<exists>ph \<in> set phases. key ph = k"
    unfolding phases_def by (elim disjE) simp_all
  then obtain ph where ph: "ph \<in> set phases" "key ph = k"
    by blast
  from assms(1) assms(2) ph(2)
  have "uc \<in> set (filter (\<lambda>uc. engagement_category uc = Some (key ph)) ucs)"
    by simp
  with assms(4)
  have "\<not> (\<forall>uc \<in> set (filter (\<lambda>uc. engagement_category uc = Some (key ph)) ucs).
             sub_category_or_Other uc \<notin> set Object_prototype_names)"
    by blast
  then have "compose_phase ucs ph = Inl TypeError"
    unfolding compose_phase_eq by (rule if_not_P)
  with ph(1) have "map_throwing (compose_phase ucs) phases = Inl TypeError"
    by (rule map_throwing_Inl)
  then show ?thesis
    by (simp add: roadmap_def)
qed

lemma roadmap_entry:
  assumes "roadmap ucs = Inr ps" and "p \<in> set ps"
  shows "groups p = js_sort (\<lambda>(_, a) (_, b). Math_max (map score b) \<le> Math_max (map score a))
           (Object_entries (own_groups sub_category_or_Other
              (filter (\<lambda>uc. engagement_category uc = Some (key (phase p))) ucs)))"
  using assms(2) unfolding roadmap_closed [OF assms(1)] by auto

text \<open>
  Whenever the page composes a roadmap, the groups of every phase partition the use
  cases of the phase by sub-category, they stand in the order of their largest scores,
  descending, and every group keeps the order of the ranking.
\<close>

lemma roadmap_groups:
  assumes "roadmap ucs = Inr ps" and "p \<in> set ps"
  shows "grouped_by_sub_category (filter (\<lambda>uc. engagement_category uc = Some (key (phase p))) ucs) (groups p)"
    and "ordered_by_max_score (groups p)"
    and "descending ucs \<Longrightarrow> (k, g) \<in> set (groups p) \<Longrightarrow> descending g"
proof -
  let ?phaseUCs = "filter (\<lambda>uc. engagement_category uc = Some (key (phase p))) ucs"
  note g = roadmap_entry [OF assms]
  show grouped: "grouped_by_sub_category ?phaseUCs (groups p)"
    unfolding g
    by (rule grouped_perm [OF grouped_own_groups])
      (simp_all add: set_js_sort set_Object_entries distinct_keys_js_sort distinct_keys_Object_entries
        keys_own_groups first_occurrences_distinct)
  show "ordered_by_max_score (groups p)"
    unfolding g by (rule ordered_by_max_scoreI) (rule sorted_groups_js_sort)
  show "descending g" if "descending ucs" "(k, g) \<in> set (groups p)"
  proof -
    from grouped that(2) have "g = filter (\<lambda>uc. sub_category_or_Other uc = k) ?phaseUCs"
      unfolding grouped_by_sub_category_def by blast
    with that(1) show ?thesis
      by (simp add: descending_def sorted_wrt_filter)
  qed
qed

lemma roadmap_phase_order:
  assumes "roadmap ucs = Inr ps"
  shows "map (\<lambda>p. key (phase p)) ps =
     filter (\<lambda>k. \<exists>uc \<in> set ucs. engagement_category uc = Some k) [''A'', ''B'', ''C'']"
  unfolding roadmap_closed [OF assms] by (simp add: phases_def filter_empty_conv)

lemma roadmap_drops_unset:
  assumes "engagement_category uc = None" and "roadmap ucs = Inr ps" and "p \<in> set ps"
    and "(k, g) \<in> set (groups p)"
  shows "uc \<notin> set g"
proof
  assume "uc \<in> set g"
  moreover from roadmap_groups(1) [OF assms(2) assms(3)] assms(4)
  have "g = filter (\<lambda>u. sub_category_or_Other u = k)
              (filter (\<lambda>u. engagement_category u = Some (key (phase p))) ucs)"
    unfolding grouped_by_sub_category_def by blast
  ultimately have "engagement_category uc = Some (key (phase p))"
    by simp
  with assms(1) show False
    by simp
qed

section \<open>The roadmap composer: the e-mail\<close>

lemma email_phase_eq:
  "email_phase (own_groups engagement_category_or_B ucs) k =
     (if \<exists>uc \<in> set ucs. engagement_category_or_B uc = k
      then (if \<forall>uc \<in> set (filter (\<lambda>uc. engagement_category_or_B uc = k) ucs).
                 sub_category_or_Other uc \<notin> set Object_prototype_names
            then Inr (Some (k, Object_entries (own_groups sub_category_or_Other
                                 (filter (\<lambda>uc. engagement_category_or_B uc = k) ucs))))
            else Inl TypeError)
      else Inr None)"
proof (cases "\<exists>uc \<in> set ucs. engagement_category_or_B uc = k")
  case True
  then have "k \<in> engagement_category_or_B ` set ucs"
    by auto
  moreover from True have "filter (\<lambda>uc. engagement_category_or_B uc = k) ucs \<noteq> []"
    by (simp add: filter_empty_conv)
  ultimately show ?thesis
    using True by (simp add: email_phase_def map_of_own_groups group_by_eq)
next
  case False
  then have "k \<notin> engagement_category_or_B ` set ucs"
    by auto
  with False show ?thesis
    by (simp add: email_phase_def map_of_own_groups)
qed

lemma roadmapHtml_closed:
  assumes "roadmapHtml ucs = Inr blocks"
  shows "blocks = List.map_filter (\<lambda>k. if \<exists>uc \<in> set ucs. engagement_category_or_B uc = k
            then Some (k, Object_entries (own_groups sub_category_or_Other
                            (filter (\<lambda>uc. engagement_category_or_B uc = k) ucs)))
            else None) phaseOrder"
proof -
  from assms have "group_by engagement_category_or_B ucs = Inr (own_groups engagement_category_or_B ucs)"
    by (auto simp: roadmapHtml_def group_by_eq split: sum.splits if_splits)
  with assms obtain bs where
    bs: "map_throwing (email_phase (own_groups engagement_category_or_B ucs)) phaseOrder = Inr bs"
    and blocks: "blocks = List.map_filter id bs"
    by (auto simp: roadmapHtml_def split: sum.splits)
  have "bs = map (\<lambda>k. if \<exists>uc \<in> set ucs. engagement_category_or_B uc = k
            then Some (k, Object_entries (own_groups sub_category_or_Other
                            (filter (\<lambda>uc. engagement_category_or_B uc = k) ucs)))
            else None) phaseOrder"
    using bs by (rule map_throwing_Inr) (auto simp: email_phase_eq split: if_splits)
  with blocks show ?thesis
    by (simp add: map_filter_id_map)
qed

lemma roadmapHtml_returns:
  assumes "\<forall>uc \<in> set ucs. sub_category_or_Other uc \<notin> set Object_prototype_names"
    and "\<forall>uc \<in> set ucs. engagement_category_or_B uc \<notin> set Object_prototype_names"
  shows "\<exists>blocks. roadmapHtml ucs = Inr blocks"
proof -
  have "map_throwing (email_phase (own_groups engagement_category_or_B ucs)) phaseOrder =
          Inr (map (\<lambda>k. if \<exists>uc \<in> set ucs. engagement_category_or_B uc = k
            then Some (k, Object_entries (own_groups sub_category_or_Other
                            (filter (\<lambda>uc. engagement_category_or_B uc = k) ucs)))
            else None) phaseOrder)"
    by (rule map_throwing_total) (simp add: email_phase_eq assms(1))
  with assms(2) show ?thesis
    by (simp add: roadmapHtml_def group_by_eq)
qed

lemma roadmapHtml_entry:
  assumes "roadmapHtml ucs = Inr blocks" and "(phaseKey, subGroups) \<in> set blocks"
  shows "subGroups = Object_entries (own_groups sub_category_or_Other
           (filter (\<lambda>uc. engagement_category_or_B uc = phaseKey) ucs))"
  using assms(2) unfolding roadmapHtml_closed [OF assms(1)]
  by (auto simp: set_map_filter split: if_splits)

text \<open>
  Whenever the e-mail composes a roadmap, the groups of every phase partition the use
  cases of the phase by sub-category and every group keeps the order of the ranking. The
  groups themselves are not sorted: they stand in the order of
  \<^verbatim>\<open>Object.entries\<close>, which is the order of the largest scores if the ranking is in
  descending score and no sub-category is an array index.
\<close>

lemma roadmapHtml_groups:
  assumes "roadmapHtml ucs = Inr blocks" and "(phaseKey, subGroups) \<in> set blocks"
  shows "grouped_by_sub_category (filter (\<lambda>uc. engagement_category_or_B uc = phaseKey) ucs) subGroups"
    and "descending ucs \<Longrightarrow> (k, g) \<in> set subGroups \<Longrightarrow> descending g"
    and "descending ucs \<Longrightarrow> \<forall>uc \<in> set ucs. \<not> is_array_index (sub_category_or_Other uc) \<Longrightarrow>
         ordered_by_max_score subGroups"
proof -
  let ?phaseUCs = "filter (\<lambda>uc. engagement_category_or_B uc = phaseKey) ucs"
  note sg = roadmapHtml_entry [OF assms]
  show grouped: "grouped_by_sub_category ?phaseUCs subGroups"
    unfolding sg
    by (rule grouped_perm [OF grouped_own_groups])
      (simp_all add: set_Object_entries distinct_keys_Object_entries keys_own_groups
        first_occurrences_distinct)
  show "descending g" if "descending ucs" "(k, g) \<in> set subGroups"
  proof -
    from grouped that(2) have "g = filter (\<lambda>uc. sub_category_or_Other uc = k) ?phaseUCs"
      unfolding grouped_by_sub_category_def by blast
    with that(1) show ?thesis
      by (simp add: descending_def sorted_wrt_filter)
  qed
  show "ordered_by_max_score subGroups"
    if "descending ucs" "\<forall>uc \<in> set ucs. \<not> is_array_index (sub_category_or_Other uc)"
  proof -
    have keys: "set (map fst (own_groups sub_category_or_Other ?phaseUCs)) = sub_category_or_Other ` set ?phaseUCs"
      by (simp only: keys_own_groups first_occurrences_set set_map)
    have "\<forall>e \<in> set (own_groups sub_category_or_Other ?phaseUCs). \<not> is_array_index (fst e)"
    proof
      fix e
      assume "e \<in> set (own_groups sub_category_or_Other ?phaseUCs)"
      then have "fst e \<in> set (map fst (own_groups sub_category_or_Other ?phaseUCs))"
        by simp
      then have "fst e \<in> sub_category_or_Other ` set ?phaseUCs"
        unfolding keys .
      then obtain uc where "uc \<in> set ucs" "fst e = sub_category_or_Other uc"
        by auto
      with that(2) show "\<not> is_array_index (fst e)"
        by simp
    qed
    then have plain: "subGroups = own_groups sub_category_or_Other ?phaseUCs"
      unfolding sg by (rule Object_entries_plain)
    from that(1) have "sorted_wrt (\<lambda>a b. score b \<le> score a) ?phaseUCs"
      by (simp add: descending_def sorted_wrt_filter)
    then show ?thesis
      unfolding plain by (intro ordered_by_max_scoreI own_groups_sorted)
  qed
qed

lemma roadmapHtml_phase_order:
  assumes "roadmapHtml ucs = Inr blocks"
  shows "map fst blocks =
     filter (\<lambda>k. \<exists>uc \<in> set ucs. engagement_category_or_B uc = k) [''A'', ''B'', ''C'']"
  unfolding roadmapHtml_closed [OF assms] map_fst_map_filter_if by (simp add: phaseOrder_def)

lemma roadmapHtml_unset_in_B:
  assumes "roadmapHtml ucs = Inr blocks" and "uc \<in> set ucs" and "engagement_category uc = None"
  shows "\<exists>subGroups g. (''B'', subGroups) \<in> set blocks
           \<and> (sub_category_or_Other uc, g) \<in> set subGroups \<and> uc \<in> set g"
proof -
  let ?phaseUCs = "filter (\<lambda>u. engagement_category_or_B u = ''B'') ucs"
  from assms(3) have B: "engagement_category_or_B uc = ''B''"
    by (simp add: engagement_category_or_B_def)
  with assms(2) have in_phase: "uc \<in> set ?phaseUCs"
    by simp
  from B assms(2) have "\<exists>u \<in> set ucs. engagement_category_or_B u = ''B''"
    by auto
  then have "(''B'', Object_entries (own_groups sub_category_or_Other ?phaseUCs)) \<in> set blocks"
    unfolding roadmapHtml_closed [OF assms(1)] by (simp add: phaseOrder_def List.map_filter_simps)
  moreover from in_phase
  have "(sub_category_or_Other uc, filter (\<lambda>u. sub_category_or_Other u = sub_category_or_Other uc) ?phaseUCs)
          \<in> set (Object_entries (own_groups sub_category_or_Other ?phaseUCs))"
    unfolding set_Object_entries by (auto simp: own_groups_closed first_occurrences_set)
  moreover from in_phase
  have "uc \<in> set (filter (\<lambda>u. sub_category_or_Other u = sub_category_or_Other uc) ?phaseUCs)"
    by simp
  ultimately show ?thesis
    by blast
qed

section \<open>The roadmap composer: the page and the e-mail compared\<close>

lemmas composer_eval =
  roadmap_def compose_phase_def phases_def roadmapHtml_def email_phase_def phaseOrder_def
  group_by_def push_group_def Object_prototype_names_def Object_entries_def is_array_index_def
  is_digit_def numeric_value_def digit_value_def sub_category_or_Other_def
  engagement_category_or_B_def js_sort_def Math_max_def group_max_def group_ids_def
  roadmap_ids_def roadmapHtml_ids_def roadmap_maxima_def roadmapHtml_maxima_def Let_def
  List.map_filter_simps

text \<open>
  C6. Both compositions emit the phases in the order A, B, C and omit a phase without
  use cases (\<open>roadmap_phase_order\<close>, \<open>roadmapHtml_phase_order\<close>). The e-mail puts
  a use case without a phase into phase B (\<open>roadmapHtml_unset_in_B\<close>); the results page
  puts it into no phase at all (\<open>roadmap_drops_unset\<close>). For the single use case O9
  without a phase the page shows an empty roadmap, while the e-mail shows O9 in phase B.
\<close>

theorem unset_phase_missing_on_page:
  "engagement_category unphased_use_case = None
   \<and> roadmap [unphased_use_case] = Inr []
   \<and> roadmapHtml_ids [unphased_use_case] = Inr [(''B'', [(''Data'', [''O9''])])]"
  by (simp add: composer_eval unphased_use_case_def)

text \<open>
  C7. The two compositions differ in the order of the sub-category groups. The results
  page sorts the groups of a phase by the largest score in each group, descending
  (\<open>roadmap_groups\<close>). The e-mail does not sort them: it emits them as
  \<^verbatim>\<open>Object.entries\<close> enumerates them (\<open>roadmapHtml_groups\<close>). For the ranking N2
  (sub-category "2", score 9), N1 (sub-category "1", score 5) in phase A, which is in
  descending score, the e-mail shows the group "1" with the largest score 5 before the
  group "2" with the largest score 9, while the page shows "2" before "1". For O3
  (Data, 10), O4 (Security, 2), O5 (Data, 1) in phase A both give the groups Data,
  Security and in Data the order O3, O5. For a use case of phase A whose sub-category
  is "constructor" neither composes a roadmap: both throw.
\<close>

theorem email_groups_not_sorted:
  "descending numbered_ranking
   \<and> roadmapHtml_ids numbered_ranking = Inr [(''A'', [(''1'', [''N1'']), (''2'', [''N2''])])]
   \<and> roadmapHtml_maxima numbered_ranking = Inr [(''A'', [(''1'', Some 5), (''2'', Some 9)])]
   \<and> roadmap_ids numbered_ranking = Inr [(''A'', [(''2'', [''N2'']), (''1'', [''N1''])])]
   \<and> roadmap_maxima numbered_ranking = Inr [(''A'', [(''2'', Some 9), (''1'', Some 5)])]
   \<and> roadmap_ids composer_scenario =
       Inr [(''A'', [(''Data'', [''O3'', ''O5'']), (''Security'', [''O4''])])]
   \<and> roadmapHtml_ids composer_scenario =
       Inr [(''A'', [(''Data'', [''O3'', ''O5'']), (''Security'', [''O4''])])]
   \<and> roadmap [inherited_name_use_case] = Inl TypeError
   \<and> roadmapHtml [inherited_name_use_case] = Inl TypeError"
proof -
  have 1: "descending numbered_ranking"
    by (simp add: descending_def numbered_ranking_def)
  have 2: "roadmapHtml_ids numbered_ranking = Inr [(''A'', [(''1'', [''N1'']), (''2'', [''N2''])])]"
    by (simp add: composer_eval numbered_ranking_def)
  have 3: "roadmapHtml_maxima numbered_ranking = Inr [(''A'', [(''1'', Some 5), (''2'', Some 9)])]"
    by (simp add: composer_eval numbered_ranking_def)
  have 4: "roadmap_ids numbered_ranking = Inr [(''A'', [(''2'', [''N2'']), (''1'', [''N1''])])]"
    by (simp add: composer_eval numbered_ranking_def)
  have 5: "roadmap_maxima numbered_ranking = Inr [(''A'', [(''2'', Some 9), (''1'', Some 5)])]"
    by (simp add: composer_eval numbered_ranking_def)
  have 6: "roadmap_ids composer_scenario =
       Inr [(''A'', [(''Data'', [''O3'', ''O5'']), (''Security'', [''O4''])])]"
    by (simp add: composer_eval composer_scenario_def)
  have 7: "roadmapHtml_ids composer_scenario =
       Inr [(''A'', [(''Data'', [''O3'', ''O5'']), (''Security'', [''O4''])])]"
    by (simp add: composer_eval composer_scenario_def)
  have 8: "roadmap [inherited_name_use_case] = Inl TypeError"
    by (simp add: composer_eval inherited_name_use_case_def)
  have 9: "roadmapHtml [inherited_name_use_case] = Inl TypeError"
    by (simp add: composer_eval inherited_name_use_case_def)
  show ?thesis
    by (rule conjI [OF 1 conjI [OF 2 conjI [OF 3 conjI [OF 4 conjI [OF 5 conjI [OF 6
          conjI [OF 7 conjI [OF 8 9]]]]]]]])
qed


section \<open>Relevance percentages: rounding\<close>

lemma round_half_even_error: "\<bar>of_int (round_half_even x) - x\<bar> \<le> 1 / 2"
proof -
  have "of_int \<lfloor>x\<rfloor> \<le> x" "x < of_int \<lfloor>x\<rfloor> + 1"
    by linarith+
  then show ?thesis
    by (auto simp: round_half_even_def Let_def)
qed

lemma fl_pos_error: "0 < x \<Longrightarrow> \<bar>fl_pos x - x\<bar> \<le> x * unit_roundoff"
proof (induction x rule: fl_pos.induct)
  case (1 x)
  consider (big) "2 ^ 53 \<le> x" | (small) "x < 2 ^ 52" | (mid) "2 ^ 52 \<le> x" "x < 2 ^ 53"
    by linarith
  then show ?case
  proof cases
    case big
    with "1.prems" have "\<bar>fl_pos (x / 2) - x / 2\<bar> \<le> x / 2 * unit_roundoff"
      by (intro "1.IH"(1)) simp_all
    moreover have "fl_pos x = 2 * fl_pos (x / 2)"
      using big "1.prems" by (subst fl_pos.simps) simp
    ultimately show ?thesis
      by linarith
  next
    case small
    with "1.prems" have "\<bar>fl_pos (2 * x) - 2 * x\<bar> \<le> 2 * x * unit_roundoff"
      by (intro "1.IH"(2)) simp_all
    moreover have "fl_pos x = fl_pos (2 * x) / 2"
      using small "1.prems" by (subst fl_pos.simps) simp
    ultimately show ?thesis
      by linarith
  next
    case mid
    then have "fl_pos x = of_int (round_half_even x)"
      using "1.prems" by (subst fl_pos.simps) simp
    moreover have "1 / 2 \<le> x * unit_roundoff"
      using mid by (simp add: unit_roundoff_def)
    ultimately show ?thesis
      using round_half_even_error [of x] by linarith
  qed
qed

lemma fl_error: "0 < x \<Longrightarrow> \<bar>fl x - x\<bar> \<le> x * unit_roundoff"
proof -
  assume "0 < x"
  then have "fl x = fl_pos x"
    by (simp add: fl_def)
  with \<open>0 < x\<close> show ?thesis
    by (simp only: fl_pos_error)
qed

lemma fl_100_error:
  assumes "0 < x" and "x \<le> 1"
  shows "\<bar>fl (fl x * 100) - 100 * x\<bar> < 1 / 2 ^ 45"
proof -
  let ?u = unit_roundoff
  have u: "0 < ?u" "?u < 1"
    by (simp_all add: unit_roundoff_def)
  have e1: "\<bar>fl x - x\<bar> \<le> x * ?u"
    using assms(1) by (rule fl_error)
  have "x * ?u < x * 1"
    using assms(1) u(2) by (rule mult_strict_left_mono [rotated])
  with e1 have "0 < fl x"
    by linarith
  then have pos: "0 < fl x * 100"
    by simp
  have e2: "\<bar>fl (fl x * 100) - fl x * 100\<bar> \<le> fl x * 100 * ?u"
    using pos by (rule fl_error)
  have "fl x \<le> x + x * ?u"
    using e1 by linarith
  then have "fl x * (100 * ?u) \<le> (x + x * ?u) * (100 * ?u)"
    using u(1) by (intro mult_right_mono) simp_all
  with e1 e2 have "\<bar>fl (fl x * 100) - 100 * x\<bar> \<le> (x + x * ?u) * (100 * ?u) + 100 * (x * ?u)"
    by linarith
  also have "\<dots> = x * (100 * ?u * (2 + ?u))"
    by (simp add: algebra_simps)
  also have "\<dots> \<le> 1 * (100 * ?u * (2 + ?u))"
    using assms(2) u(1) by (intro mult_right_mono) simp_all
  also have "\<dots> < 1 / 2 ^ 45"
    by (simp add: unit_roundoff_def)
  finally show ?thesis .
qed


lemma Math_round_fl_exact:
  assumes s: "0 \<le> s" "s \<le> D" and D: "1 \<le> D" "D \<le> 2 ^ 44"
    and no_tie: "(200 * s + D) mod (2 * D) \<noteq> 0"
  shows "Math_round (fl (fl (of_int s / of_int D) * 100)) = (200 * s + D) div (2 * D)"
proof (cases "s = 0")
  case True
  have "fl_pos 0 = 0"
    by (subst fl_pos.simps) simp
  then have "Math_round (fl (fl (of_int s / of_int D) * 100)) = 0"
    using True by (simp add: fl_def Math_round_def floor_rat_one_divide)
  moreover have "(200 * s + D) div (2 * D) = 0"
    using True D by simp
  ultimately show ?thesis
    by simp
next
  case False
  define x :: rat where "x = of_int s / of_int D"
  define y where "y = fl (fl x * 100)"
  define q where "q = (200 * s + D) div (2 * D)"
  define r where "r = (200 * s + D) mod (2 * D)"
  define M :: rat where "M = of_int (2 * D)"
  from False s D have x: "0 < x" "x \<le> 1"
    by (simp_all add: x_def)
  then have err: "\<bar>y - 100 * x\<bar> < 1 / 2 ^ 45"
    unfolding y_def by (rule fl_100_error)
  from D have M: "0 < M" "M \<le> 2 ^ 45"
  proof -
    show "0 < M"
      using D by (simp add: M_def)
    have "2 * D \<le> 2 ^ 45"
      using D by simp
    then have "(of_int (2 * D) :: rat) \<le> of_int (2 ^ 45)"
      by (rule of_int_le_iff [THEN iffD2])
    then show "M \<le> 2 ^ 45"
      by (simp add: M_def)
  qed
  have r: "1 \<le> r" "r \<le> 2 * D - 1"
  proof -
    have "0 \<le> r" "r < 2 * D"
      using D by (simp_all add: r_def)
    with no_tie show "1 \<le> r" "r \<le> 2 * D - 1"
      by (simp_all add: r_def)
  qed
  have "200 * s + D = q * (2 * D) + r"
    unfolding q_def r_def by (rule div_mult_mod_eq [symmetric])
  then have "(of_int (200 * s + D) :: rat) = of_int (q * (2 * D) + r)"
    by simp
  then have split: "200 * of_int s + of_int D = of_int q * M + (of_int r :: rat)"
    by (simp add: M_def)
  have "100 * x + 1 / 2 = (200 * of_int s + of_int D) / M"
    using D by (simp add: x_def M_def field_simps)
  also have "\<dots> = (of_int q * M + of_int r) / M"
    by (simp only: split)
  also have "\<dots> = of_int q + of_int r / M"
    using M(1) by (simp add: add_divide_distrib)
  finally have mid: "100 * x + 1 / 2 = of_int q + of_int r / M" .
  have inv: "1 / 2 ^ 45 \<le> 1 / M"
    using M by (intro divide_left_mono) simp_all
  have "(1 :: rat) \<le> of_int r"
    using r(1) by simp
  then have low: "1 / M \<le> of_int r / M"
    using M(1) by (intro divide_right_mono) simp_all
  have "(of_int r :: rat) \<le> of_int (2 * D - 1)"
    using r(2) by (rule of_int_le_iff [THEN iffD2])
  then have "(of_int r :: rat) \<le> M - 1"
    by (simp add: M_def)
  then have "of_int r / M \<le> (M - 1) / M"
    using M(1) by (intro divide_right_mono) simp_all
  also have "\<dots> = 1 - 1 / M"
    using M(1) by (simp add: field_simps)
  finally have high: "of_int r / M \<le> 1 - 1 / M" .
  have "of_int q \<le> y + 1 / 2" "y + 1 / 2 < of_int q + 1"
    using err mid inv low high by linarith+
  then have "\<lfloor>y + 1 / 2\<rfloor> = q"
    by (intro floor_unique) simp_all
  then show ?thesis
    by (simp add: Math_round_def y_def x_def q_def)
qed

lemma Math_round_fl_top:
  assumes "1 \<le> D"
  shows "Math_round (fl (fl (of_int D / of_int D) * 100)) = 100"
proof -
  from assms have "(of_int D :: rat) / of_int D = 1"
    by simp
  moreover have "fl 1 = 1" "fl 100 = 100"
    by (simp_all add: fl_eval)
  ultimately show ?thesis
    by (simp add: Math_round_def floor_rat_numeral_divide)
qed


lemma spec_percentage_div: "0 < D \<Longrightarrow> spec_percentage s D = (200 * s + D) div (2 * D)"
proof -
  assume D: "0 < D"
  have "100 * of_int s / of_int D + 1 / 2 = (of_int (200 * s + D) :: rat) / of_int (2 * D)"
    using D by (simp add: field_simps)
  then show ?thesis
    by (simp only: spec_percentage_def Math_round_def floor_divide_of_int_eq)
qed

lemma Math_round_fl_near:
  assumes s: "0 \<le> s" "s \<le> D" and D: "1 \<le> D" "D \<le> 2 ^ 44"
  shows "Math_round (fl (fl (of_int s / of_int D) * 100)) = (200 * s + D) div (2 * D)
       \<or> Math_round (fl (fl (of_int s / of_int D) * 100)) = (200 * s + D) div (2 * D) - 1"
proof (cases "(200 * s + D) mod (2 * D) = 0")
  case False
  with assms show ?thesis
    by (simp add: Math_round_fl_exact)
next
  case True
  define x :: rat where "x = of_int s / of_int D"
  define y where "y = fl (fl x * 100)"
  define q where "q = (200 * s + D) div (2 * D)"
  from True D have "s \<noteq> 0"
    by (auto simp: zmod_trivial_iff)
  with s D have x: "0 < x" "x \<le> 1"
    by (simp_all add: x_def)
  then have err: "\<bar>y - 100 * x\<bar> < 1 / 2 ^ 45"
    unfolding y_def by (rule fl_100_error)
  have "200 * s + D = q * (2 * D)"
    using True unfolding q_def by (metis add.right_neutral div_mult_mod_eq)
  then have "(of_int (200 * s + D) :: rat) = of_int (q * (2 * D))"
    by simp
  then have "200 * of_int s + of_int D = (of_int q :: rat) * (2 * of_int D)"
    by simp
  then have mid: "100 * x + 1 / 2 = of_int q"
    using D by (simp add: x_def field_simps)
  have "(1 :: rat) / 2 ^ 45 \<le> 1"
    by simp
  with err mid have "of_int (q - 1) \<le> y + 1 / 2" "y + 1 / 2 < of_int (q - 1) + 2"
    by (simp_all, linarith+)
  then have "\<lfloor>y + 1 / 2\<rfloor> = q - 1 \<or> \<lfloor>y + 1 / 2\<rfloor> = q"
    by linarith
  then show ?thesis
    by (auto simp: Math_round_def y_def x_def q_def)
qed

lemma foldr_max_Max: "foldr max xs (1 :: int) = Max (insert 1 (set xs))"
  by (induction xs) (simp_all add: insert_commute)

lemma maxScore_Max: "maxScore ucs = Max (insert 1 (score ` set ucs))"
  by (simp add: maxScore_def foldr_max_Max)

lemma emailMaxScore_eq: "emailMaxScore ucs = maxScore ucs"
  by (cases ucs) (simp_all add: emailMaxScore_def maxScore_def)

lemma maxScore_bounds:
  "1 \<le> maxScore ucs" "uc \<in> set ucs \<Longrightarrow> score uc \<le> maxScore ucs"
  "maxScore ucs = 1 \<or> maxScore ucs \<in> score ` set ucs"
proof -
  have fin: "finite (insert 1 (score ` set ucs))"
    by simp
  show "1 \<le> maxScore ucs"
    unfolding maxScore_Max by (rule Max_ge [OF fin]) simp
  show "score uc \<le> maxScore ucs" if "uc \<in> set ucs"
    unfolding maxScore_Max using that by (intro Max_ge [OF fin]) simp
  have "Max (insert 1 (score ` set ucs)) \<in> insert 1 (score ` set ucs)"
    by (rule Max_in [OF fin]) simp
  then show "maxScore ucs = 1 \<or> maxScore ucs \<in> score ` set ucs"
    unfolding maxScore_Max by blast
qed

lemma relevanceBadgeHtml_eq: "relevanceBadgeHtml s (emailMaxScore ucs) = RelevanceBadge s (maxScore ucs)"
  using maxScore_bounds(1) [of ucs]
  by (simp add: relevanceBadgeHtml_def RelevanceBadge_def emailMaxScore_eq max_def)


lemma roadmap_group_subset:
  assumes "roadmap ucs = Inr ps" and "p \<in> set ps" and "(k, g) \<in> set (groups p)"
  shows "set g \<subseteq> set ucs"
proof -
  from roadmap_groups(1) [OF assms(1) assms(2)] assms(3)
  have "g = filter (\<lambda>u. sub_category_or_Other u = k)
              (filter (\<lambda>u. engagement_category u = Some (key (phase p))) ucs)"
    unfolding grouped_by_sub_category_def by blast
  then show ?thesis
    by auto
qed

lemma roadmapHtml_group_subset:
  assumes "roadmapHtml ucs = Inr blocks" and "(phaseKey, subGroups) \<in> set blocks"
    and "(k, g) \<in> set subGroups"
  shows "set g \<subseteq> set ucs"
proof -
  from roadmapHtml_groups(1) [OF assms(1) assms(2)] assms(3)
  have "g = filter (\<lambda>u. sub_category_or_Other u = k)
              (filter (\<lambda>uc. engagement_category_or_B uc = phaseKey) ucs)"
    unfolding grouped_by_sub_category_def by blast
  then show ?thesis
    by auto
qed

lemma roadmap_badges_denominator:
  assumes "roadmap_badges ucs = Inr rb" and "(phaseKey, gs) \<in> set rb" and "(subCat, bs) \<in> set gs"
    and "(i, pct) \<in> set bs"
  shows "\<exists>uc \<in> set ucs. i = uc_id uc \<and> pct = RelevanceBadge (score uc) (maxScore ucs)"
proof -
  from assms(1) obtain ps where ps: "roadmap ucs = Inr ps"
    and rb: "rb = map (\<lambda>p. (key (phase p),
                 map (\<lambda>(subCat, useCases).
                        (subCat, map (\<lambda>uc. (uc_id uc, RelevanceBadge (score uc) (maxScore ucs))) useCases))
                   (groups p)))
            ps"
    by (auto simp: roadmap_badges_def split: sum.splits)
  from assms(2) rb obtain p where p: "p \<in> set ps"
    and gs: "gs = map (\<lambda>(subCat, useCases).
                   (subCat, map (\<lambda>uc. (uc_id uc, RelevanceBadge (score uc) (maxScore ucs))) useCases))
              (groups p)"
    by auto
  from assms(3) gs obtain g where g: "(subCat, g) \<in> set (groups p)"
    and bs: "bs = map (\<lambda>uc. (uc_id uc, RelevanceBadge (score uc) (maxScore ucs))) g"
    by auto
  from assms(4) bs obtain uc where "uc \<in> set g" "i = uc_id uc"
    "pct = RelevanceBadge (score uc) (maxScore ucs)"
    by auto
  moreover have "set g \<subseteq> set ucs"
    using ps p g by (rule roadmap_group_subset)
  ultimately show ?thesis
    by blast
qed

lemma roadmapHtml_badges_denominator:
  assumes "roadmapHtml_badges ucs = Inr rb" and "(phaseKey, gs) \<in> set rb" and "(subCat, bs) \<in> set gs"
    and "(i, pct) \<in> set bs"
  shows "\<exists>uc \<in> set ucs. i = uc_id uc \<and> pct = RelevanceBadge (score uc) (maxScore ucs)"
proof -
  from assms(1) obtain blocks where blocks: "roadmapHtml ucs = Inr blocks"
    and rb: "rb = map (\<lambda>(phaseKey, subGroups).
                 (phaseKey,
                  map (\<lambda>(subCat, subUCs).
                         (subCat, map (\<lambda>uc. (uc_id uc, relevanceBadgeHtml (score uc) (emailMaxScore ucs))) subUCs))
                    subGroups))
            blocks"
    by (auto simp: roadmapHtml_badges_def split: sum.splits)
  from assms(2) rb obtain subGroups where p: "(phaseKey, subGroups) \<in> set blocks"
    and gs: "gs = map (\<lambda>(subCat, subUCs).
                    (subCat, map (\<lambda>uc. (uc_id uc, relevanceBadgeHtml (score uc) (emailMaxScore ucs))) subUCs))
               subGroups"
    by auto
  from assms(3) gs obtain g where g: "(subCat, g) \<in> set subGroups"
    and bs: "bs = map (\<lambda>uc. (uc_id uc, relevanceBadgeHtml (score uc) (emailMaxScore ucs))) g"
    by auto
  from assms(4) bs obtain uc where "uc \<in> set g" "i = uc_id uc"
    "pct = relevanceBadgeHtml (score uc) (emailMaxScore ucs)"
    by auto
  moreover have "set g \<subseteq> set ucs"
    using blocks p g by (rule roadmapHtml_group_subset)
  ultimately show ?thesis
    by (auto simp: relevanceBadgeHtml_eq)
qed

lemma ordered_score:
  assumes "uc \<in> set (ordered use_cases entries)"
  shows "\<exists>s. (uc_id uc, s) \<in> set entries \<and> score uc = s"
proof -
  from assms obtain k row where k: "k \<in> fst ` set entries"
    and row: "find (\<lambda>u. uc_id u = k) (filter (\<lambda>u. uc_id u \<in> set (map fst entries)) use_cases) = Some row"
    and uc: "uc = use_case.extend row (UseCase.fields (scoreMap_or_0 entries k))"
    by (auto simp: ordered_def Let_def set_map_filter split: option.splits)
  from row have "uc_id row = k"
    by (auto simp: find_Some_iff)
  with uc have id: "uc_id uc = k" and sc: "score uc = scoreMap_or_0 entries k"
    by (simp_all add: use_case.extend_def UseCase.fields_def)
  from k have "k \<in> fst ` set (rev entries)"
    by simp
  then obtain s where s: "map_of (rev entries) k = Some s"
    by (cases "map_of (rev entries) k") (auto simp: map_of_eq_None_iff)
  then have "(k, s) \<in> set entries"
    by (auto dest: map_of_SomeD)
  with s id sc show ?thesis
    by (simp add: scoreMap_or_0_def)
qed

lemma clientSideProcessing_score:
  assumes "uc \<in> set (clientSideProcessing use_cases table responses)"
  shows "3 \<le> score uc"
proof -
  from assms obtain s where "(uc_id uc, s) \<in> set (sortedEntries table responses)" "score uc = s"
    unfolding clientSideProcessing_def by (blast dest: ordered_score)
  then show ?thesis
    by (simp add: sortedEntries_def set_cutoff_and_sort MIN_SCORE_def)
qed

lemma tie_badges:
  "maxScore [tie_first, tie_second] = 40"
  "RelevanceBadge 23 40 = 57" "relevanceBadgeHtml 23 40 = 57" "spec_percentage 23 40 = 58"
  "is_tie 23 40"
  by (simp_all add: maxScore_def tie_first_def tie_second_def RelevanceBadge_def relevanceBadgeHtml_def
      spec_percentage_def is_tie_def fl_eval)

text \<open>
  C5. The denominator of every relevance badge, in every phase and sub-category group of
  the results page and of the e-mail, is the largest score of the whole result set, and
  1 if that is smaller. The badge is \<^verbatim>\<open>Math.round((score / D) * 100)\<close> in binary64
  arithmetic: for scores from 0 to \<open>D \<le> 2\<^sup>4\<^sup>4\<close> it is the exact
  \<open>round(100 * score / D)\<close> unless \<open>100 * score / D\<close> lies halfway between two
  integers, where it is that or one less. A use case with the largest score, at least 1,
  has the badge 100, and every score the scoring engine returns is at least 3.
\<close>

theorem relevance_percentage:
  "1 \<le> maxScore ucs
   \<and> (\<forall>uc \<in> set ucs. score uc \<le> maxScore ucs)
   \<and> (maxScore ucs = 1 \<or> maxScore ucs \<in> score ` set ucs)
   \<and> emailMaxScore ucs = maxScore ucs
   \<and> (\<forall>rb. roadmap_badges ucs = Inr rb \<longrightarrow>
         (\<forall>(phaseKey, gs) \<in> set rb. \<forall>(subCat, bs) \<in> set gs. \<forall>(i, pct) \<in> set bs.
            \<exists>uc \<in> set ucs. i = uc_id uc \<and> pct = RelevanceBadge (score uc) (maxScore ucs)))
   \<and> (\<forall>rb. roadmapHtml_badges ucs = Inr rb \<longrightarrow>
         (\<forall>(phaseKey, gs) \<in> set rb. \<forall>(subCat, bs) \<in> set gs. \<forall>(i, pct) \<in> set bs.
            \<exists>uc \<in> set ucs. i = uc_id uc \<and> pct = RelevanceBadge (score uc) (maxScore ucs)))
   \<and> (\<forall>uc \<in> set ucs. 0 \<le> score uc \<and> maxScore ucs \<le> 2 ^ 44 \<longrightarrow>
         (if is_tie (score uc) (maxScore ucs)
          then RelevanceBadge (score uc) (maxScore ucs) = spec_percentage (score uc) (maxScore ucs)
             \<or> RelevanceBadge (score uc) (maxScore ucs) = spec_percentage (score uc) (maxScore ucs) - 1
          else RelevanceBadge (score uc) (maxScore ucs) = spec_percentage (score uc) (maxScore ucs)))
   \<and> (\<forall>uc \<in> set ucs. 1 \<le> score uc \<and> score uc = maxScore ucs \<longrightarrow>
         RelevanceBadge (score uc) (maxScore ucs) = 100)
   \<and> (\<forall>uc \<in> set (clientSideProcessing use_cases table responses). 3 \<le> score uc)"
proof -
  note b = maxScore_bounds [where ucs = ucs]
  have formula: "if is_tie (score uc) (maxScore ucs)
          then RelevanceBadge (score uc) (maxScore ucs) = spec_percentage (score uc) (maxScore ucs)
             \<or> RelevanceBadge (score uc) (maxScore ucs) = spec_percentage (score uc) (maxScore ucs) - 1
          else RelevanceBadge (score uc) (maxScore ucs) = spec_percentage (score uc) (maxScore ucs)"
    if "uc \<in> set ucs" "0 \<le> score uc" "maxScore ucs \<le> 2 ^ 44" for uc
  proof -
    from that(1) have le: "score uc \<le> maxScore ucs"
      by (rule b(2))
    have sp: "spec_percentage (score uc) (maxScore ucs) =
           (200 * score uc + maxScore ucs) div (2 * maxScore ucs)"
      using b(1) by (intro spec_percentage_div) simp
    show ?thesis
    proof (cases "is_tie (score uc) (maxScore ucs)")
      case True
      with Math_round_fl_near [OF that(2) le b(1) that(3)] show ?thesis
        by (simp add: RelevanceBadge_def sp)
    next
      case False
      then have "(200 * score uc + maxScore ucs) mod (2 * maxScore ucs) \<noteq> 0"
        by (simp add: is_tie_def)
      with Math_round_fl_exact [OF that(2) le b(1) that(3)] False show ?thesis
        by (simp add: RelevanceBadge_def sp)
    qed
  qed
  have c1: "1 \<le> maxScore ucs"
    by (rule b(1))
  have c2: "\<forall>uc \<in> set ucs. score uc \<le> maxScore ucs"
    by (simp add: b(2))
  have c3: "maxScore ucs = 1 \<or> maxScore ucs \<in> score ` set ucs"
    by (rule b(3))
  have c4: "emailMaxScore ucs = maxScore ucs"
    by (rule emailMaxScore_eq)
  have c5: "\<forall>rb. roadmap_badges ucs = Inr rb \<longrightarrow>
         (\<forall>(phaseKey, gs) \<in> set rb. \<forall>(subCat, bs) \<in> set gs. \<forall>(i, pct) \<in> set bs.
            \<exists>uc \<in> set ucs. i = uc_id uc \<and> pct = RelevanceBadge (score uc) (maxScore ucs))"
    by (auto dest: roadmap_badges_denominator)
  have c6: "\<forall>rb. roadmapHtml_badges ucs = Inr rb \<longrightarrow>
         (\<forall>(phaseKey, gs) \<in> set rb. \<forall>(subCat, bs) \<in> set gs. \<forall>(i, pct) \<in> set bs.
            \<exists>uc \<in> set ucs. i = uc_id uc \<and> pct = RelevanceBadge (score uc) (maxScore ucs))"
    by (auto dest: roadmapHtml_badges_denominator)
  have c7: "\<forall>uc \<in> set ucs. 0 \<le> score uc \<and> maxScore ucs \<le> 2 ^ 44 \<longrightarrow>
         (if is_tie (score uc) (maxScore ucs)
          then RelevanceBadge (score uc) (maxScore ucs) = spec_percentage (score uc) (maxScore ucs)
             \<or> RelevanceBadge (score uc) (maxScore ucs) = spec_percentage (score uc) (maxScore ucs) - 1
          else RelevanceBadge (score uc) (maxScore ucs) = spec_percentage (score uc) (maxScore ucs))"
    using formula by blast
  have c8: "\<forall>uc \<in> set ucs. 1 \<le> score uc \<and> score uc = maxScore ucs \<longrightarrow>
         RelevanceBadge (score uc) (maxScore ucs) = 100"
  proof (intro ballI impI)
    fix uc
    assume "1 \<le> score uc \<and> score uc = maxScore ucs"
    then have "1 \<le> maxScore ucs" "score uc = maxScore ucs"
      by simp_all
    with Math_round_fl_top [of "maxScore ucs"] show "RelevanceBadge (score uc) (maxScore ucs) = 100"
      by (simp add: RelevanceBadge_def)
  qed
  have c9: "\<forall>uc \<in> set (clientSideProcessing use_cases table responses). 3 \<le> score uc"
    by (simp add: clientSideProcessing_score)
  show ?thesis
    by (rule conjI [OF c1 conjI [OF c2 conjI [OF c3 conjI [OF c4 conjI [OF c5 conjI [OF c6
          conjI [OF c7 conjI [OF c8 c9]]]]]]]])
qed


theorem relevance_percentage_witness:
  "tie_first \<in> set [tie_first, tie_second] \<and> tie_second \<in> set [tie_first, tie_second]
   \<and> 1 \<le> score tie_first \<and> score tie_first = maxScore [tie_first, tie_second]
   \<and> 0 \<le> score tie_second \<and> maxScore [tie_first, tie_second] \<le> 2 ^ 44
   \<and> RelevanceBadge (score tie_first) (maxScore [tie_first, tie_second]) = 100
   \<and> spec_percentage (score tie_first) (maxScore [tie_first, tie_second]) = 100
   \<and> is_tie (score tie_second) (maxScore [tie_first, tie_second])
   \<and> RelevanceBadge (score tie_second) (maxScore [tie_first, tie_second]) =
       spec_percentage (score tie_second) (maxScore [tie_first, tie_second]) - 1
   \<and> map score (clientSideProcessing scenario_use_cases scenario_rules scenario_responses) = [7, 3]
   \<and> (3 :: int) \<le> 7 \<and> (3 :: int) \<le> 3
   \<and> roadmap_badges [tie_first, tie_second] =
       Inr [(''A'', [(''Data'', [(''O1'', 100)])]), (''B'', [(''Data'', [(''O2'', 57)])])]
   \<and> roadmapHtml_badges [tie_first, tie_second] =
       Inr [(''A'', [(''Data'', [(''O1'', 100)])]), (''B'', [(''Data'', [(''O2'', 57)])])]"
proof -
  have m: "maxScore [tie_first, tie_second] = 40"
    by (rule tie_badges(1))
  have top: "RelevanceBadge 40 40 = 100" "relevanceBadgeHtml 40 40 = 100"
    by (simp_all add: RelevanceBadge_def relevanceBadgeHtml_def fl_eval)
  have page: "roadmap_badges [tie_first, tie_second] =
       Inr [(''A'', [(''Data'', [(''O1'', RelevanceBadge 40 40)])]),
            (''B'', [(''Data'', [(''O2'', RelevanceBadge 23 40)])])]"
    unfolding roadmap_badges_def m by (simp add: composer_eval tie_first_def tie_second_def)
  have mail: "roadmapHtml_badges [tie_first, tie_second] =
       Inr [(''A'', [(''Data'', [(''O1'', relevanceBadgeHtml 40 40)])]),
            (''B'', [(''Data'', [(''O2'', relevanceBadgeHtml 23 40)])])]"
    unfolding roadmapHtml_badges_def emailMaxScore_eq m
    by (simp add: composer_eval tie_first_def tie_second_def)
  have s1: "score tie_first = 40" and s2: "score tie_second = 23"
    by (simp_all add: tie_first_def tie_second_def)
  have t: "is_tie 23 40" "\<not> is_tie 40 40"
    by (simp_all add: is_tie_def)
  from relevance_percentage [where ucs = "[tie_first, tie_second]"
      and use_cases = scenario_use_cases and table = scenario_rules and responses = scenario_responses]
  have "RelevanceBadge 40 40 = 100 \<and> RelevanceBadge 40 40 = spec_percentage 40 40
      \<and> (3 :: int) \<le> 7 \<and> (3 :: int) \<le> 3"
    by (simp add: m s1 s2 t scenario_ranked(3))
  with tie_badges top page mail show ?thesis
    by (simp add: m s1 s2 scenario_ranked(3))
qed

theorem relevance_tie_counterexample:
  "score tie_second = 23 \<and> maxScore [tie_first, tie_second] = 40
   \<and> RelevanceBadge (score tie_second) (maxScore [tie_first, tie_second]) = 57
   \<and> relevanceBadgeHtml (score tie_second) (emailMaxScore [tie_first, tie_second]) = 57
   \<and> spec_percentage (score tie_second) (maxScore [tie_first, tie_second]) = 58"
proof -
  have s2: "score tie_second = 23"
    by (simp add: tie_second_def)
  show ?thesis
    unfolding emailMaxScore_eq tie_badges(1) s2 using tie_badges by simp
qed


end
